theory Spec2Isabelle
  imports Main "HOL-Library.Word"
begin

unbundle bit_operations_syntax

section \<open>Bytes, constants and reply envelopes\<close>

text \<open>
  The port driver \<^verbatim>\<open>sample_app_port.c\<close> works on \<^verbatim>\<open>uint8_t\<close> buffers. A buffer is a
  list of 8-bit words; a C read \<^verbatim>\<open>data[k]\<close> is \<open>rd data k\<close>, which is \<open>None\<close> when \<open>k\<close>
  lies outside the buffer (undefined behaviour in C).
\<close>

type_synonym u8 = "8 word"
type_synonym u16 = "16 word"

definition SWITCHBOT_COMPANY_ID_LE0 :: u8 where "SWITCHBOT_COMPANY_ID_LE0 = 0x69"
definition SWITCHBOT_COMPANY_ID_LE1 :: u8 where "SWITCHBOT_COMPANY_ID_LE1 = 0x09"
definition SWITCHBOT_SVC_UUID16_LE0 :: u8 where "SWITCHBOT_SVC_UUID16_LE0 = 0x3d"
definition SWITCHBOT_SVC_UUID16_LE1 :: u8 where "SWITCHBOT_SVC_UUID16_LE1 = 0xfd"

definition OPCODE_PING :: u8 where "OPCODE_PING = 0x01"
definition OPCODE_ECHO :: u8 where "OPCODE_ECHO = 0x02"
definition OPCODE_BLE_START :: u8 where "OPCODE_BLE_START = 0x10"
definition OPCODE_BLE_STOP :: u8 where "OPCODE_BLE_STOP = 0x11"
definition OPCODE_LATEST :: u8 where "OPCODE_LATEST = 0x12"
definition OPCODE_LATEST_FOR :: u8 where "OPCODE_LATEST_FOR = 0x13"

definition MAX_DEVICES :: nat where "MAX_DEVICES = 12"
definition MAX_BLE_DATA :: nat where "MAX_BLE_DATA = 31"

definition rd :: "u8 list \<Rightarrow> nat \<Rightarrow> u8 option" where
  "rd data k = (if k < length data then Some (data ! k) else None)"

text \<open>\<^verbatim>\<open>make_error\<close>: the two bytes \<^verbatim>\<open>{0x01, code}\<close>.\<close>

definition make_error :: "u8 \<Rightarrow> u8 list" where
  "make_error code = [0x01, code]"

text \<open>\<^verbatim>\<open>make_ok_with_payload\<close>: byte \<^verbatim>\<open>0x00\<close>, then the payload when it is not empty.\<close>

definition make_ok_with_payload :: "u8 list \<Rightarrow> u8 list" where
  "make_ok_with_payload payload =
     (if length payload > 0 then 0x00 # payload else [0x00])"

section \<open>The advertisement parser\<close>

text \<open>
  \<^verbatim>\<open>adv_extract_t\<close>: the two pointers \<^verbatim>\<open>mfg\<close> and \<^verbatim>\<open>svc\<close> point into the parsed buffer
  and are kept as offsets into it (fields \<open>ex_mfg\<close>, \<open>ex_svc\<close>; the prefix keeps them
  apart from the fields of the cache record); \<^verbatim>\<open>adv_extract_init\<close> zeroes the structure.
\<close>

record adv_extract_t =
  ex_mfg :: nat
  ex_mfg_len :: u8
  ex_svc :: nat
  ex_svc_len :: u8
  has_mfg :: bool
  has_svc :: bool

definition adv_extract_init :: adv_extract_t where
  "adv_extract_init =
     \<lparr>ex_mfg = 0, ex_mfg_len = 0, ex_svc = 0, ex_svc_len = 0,
      has_mfg = False, has_svc = False\<rparr>"

text \<open>
  The body of the \<^verbatim>\<open>while\<close> loop of \<^verbatim>\<open>adv_extract\<close> after the two \<^verbatim>\<open>break\<close> tests, for
  the structure at offset \<open>i\<close> with length byte \<open>len\<close>: it reads the type byte at
  \<open>i + 1\<close> and, for a service-data structure, \<^verbatim>\<open>val[0]\<close> and then (the \<^verbatim>\<open>&&\<close> being
  lazy) \<^verbatim>\<open>val[1]\<close>.
\<close>

definition adv_step :: "u8 list \<Rightarrow> u8 \<Rightarrow> u8 \<Rightarrow> adv_extract_t \<Rightarrow> adv_extract_t option" where
  "adv_step data i len out =
     (case rd data (unat i + 1) of
        None \<Rightarrow> None
      | Some type \<Rightarrow>
          let val = unat i + 2;
              val_len = len - 1;
              out1 = (if type = 0xFF \<and> val_len \<ge> 2
                      then out\<lparr>ex_mfg := val, ex_mfg_len := val_len, has_mfg := True\<rparr>
                      else out)
          in if type = 0x16 \<and> val_len \<ge> 2 then
               (case rd data val of
                  None \<Rightarrow> None
                | Some v0 \<Rightarrow>
                    if v0 = SWITCHBOT_SVC_UUID16_LE0 then
                      (case rd data (val + 1) of
                         None \<Rightarrow> None
                       | Some v1 \<Rightarrow>
                           if v1 = SWITCHBOT_SVC_UUID16_LE1
                           then Some (out1\<lparr>ex_svc := val + 2, ex_svc_len := val_len - 2,
                                           has_svc := True\<rparr>)
                           else Some out1)
                    else Some out1)
             else Some out1)"

text \<open>
  The \<^verbatim>\<open>while (i < data_len)\<close> loop. The index \<open>i\<close> and the length byte are
  \<^verbatim>\<open>uint8_t\<close>; the bound test is made on the values widened to 16 bits, and the new
  index is the sum truncated to 8 bits.
\<close>

function adv_loop :: "u8 list \<Rightarrow> u8 \<Rightarrow> u8 \<Rightarrow> adv_extract_t \<Rightarrow> adv_extract_t option" where
  "adv_loop data data_len i out =
     (if i < data_len then
        (case rd data (unat i) of
           None \<Rightarrow> None
         | Some len \<Rightarrow>
             if len = 0 then Some out
             else if unat i + unat len \<ge> unat data_len then Some out
             else (case adv_step data i len out of
                     None \<Rightarrow> None
                   | Some out' \<Rightarrow> adv_loop data data_len (i + 1 + len) out'))
      else Some out)"
  by pat_completeness auto
termination
proof (relation "measure (\<lambda>(data, data_len, i, out). unat data_len - unat i)")
  show "wf (measure (\<lambda>(data, data_len, i, out). unat data_len - unat i))"
    by simp
next
  fix data :: "u8 list" and data_len i len :: u8 and out out' :: adv_extract_t
  assume "i < data_len" and "len \<noteq> 0"
    and bound: "\<not> unat data_len \<le> unat i + unat len"
  have "unat data_len < 256"
    using unsigned_less [of data_len, where ?'a = nat] by simp
  with bound have small: "unat i + 1 + unat len < 256"
    by simp
  have "unat (i + 1 + len) = (unat i + 1 + unat len) mod 256"
    by (simp add: unat_word_ariths mod_simps)
  with small have "unat (i + 1 + len) = unat i + 1 + unat len"
    by simp
  with bound show "((data, data_len, i + 1 + len, out'), (data, data_len, i, out))
        \<in> measure (\<lambda>(data, data_len, i, out). unat data_len - unat i)"
    by simp
qed

declare adv_loop.simps [simp del]

definition adv_extract :: "u8 list \<Rightarrow> u8 \<Rightarrow> adv_extract_t option" where
  "adv_extract data data_len = adv_loop data data_len 0 adv_extract_init"

section \<open>The device cache\<close>

text \<open>
  \<^verbatim>\<open>device_cache_t\<close>. The arrays \<^verbatim>\<open>addr[6]\<close>, \<^verbatim>\<open>mfg[31]\<close> and \<^verbatim>\<open>svc[31]\<close> are lists of
  that length; \<^verbatim>\<open>rssi\<close> is an \<^verbatim>\<open>int8_t\<close>, kept as the 8-bit word that \<open>sint\<close> reads.
\<close>

record device_cache_t =
  addr :: "u8 list"
  in_use :: bool
  rssi :: u8
  have_mfg :: bool
  mfg_len :: u8
  mfg :: "u8 list"
  have_svc :: bool
  svc_len :: u8
  svc :: "u8 list"
  device_id :: u16
  have_device_id :: bool

text \<open>A slot after \<^verbatim>\<open>memset(&g_devices[i], 0, sizeof(g_devices[i]))\<close>, and as a static starts.\<close>

definition zero_device :: device_cache_t where
  "zero_device =
     \<lparr>addr = replicate 6 0, in_use = False, rssi = 0,
      have_mfg = False, mfg_len = 0, mfg = replicate MAX_BLE_DATA 0,
      have_svc = False, svc_len = 0, svc = replicate MAX_BLE_DATA 0,
      device_id = 0, have_device_id = False\<rparr>"

text \<open>
  The statics \<^verbatim>\<open>g_devices\<close>, \<^verbatim>\<open>g_latest_index\<close> and \<^verbatim>\<open>g_ble_started\<close>. The two handlers
  below each run under the mutex \<^verbatim>\<open>g_lock\<close>, so each is one atomic step on this state.
\<close>

record state =
  g_devices :: "device_cache_t list"
  g_latest_index :: int
  g_ble_started :: bool

definition init_state :: state where
  "init_state =
     \<lparr>g_devices = replicate MAX_DEVICES zero_device, g_latest_index = - 1,
      g_ble_started = False\<rparr>"

text \<open>\<^verbatim>\<open>memcmp(x, y, 6) == 0\<close> and \<^verbatim>\<open>memcpy(dst, src + off, n)\<close> into an array.\<close>

definition memcmp6 :: "u8 list \<Rightarrow> u8 list \<Rightarrow> bool" where
  "memcmp6 x y = (take 6 x = take 6 y)"

definition memcpy :: "u8 list \<Rightarrow> u8 list \<Rightarrow> nat \<Rightarrow> nat \<Rightarrow> u8 list option" where
  "memcpy dst src off n =
     (if off + n \<le> length src \<and> n \<le> length dst
      then Some (take n (drop off src) @ drop n dst) else None)"

text \<open>The first loop of \<^verbatim>\<open>cache_find_or_alloc\<close>: the slot in use with this address.\<close>

function find_loop :: "device_cache_t list \<Rightarrow> u8 list \<Rightarrow> nat \<Rightarrow> nat option" where
  "find_loop ds a i =
     (if i < MAX_DEVICES then
        (if in_use (ds ! i) \<and> memcmp6 (addr (ds ! i)) a then Some i
         else find_loop ds a (i + 1))
      else None)"
  by pat_completeness auto
termination
  by (relation "measure (\<lambda>(ds, a, i). MAX_DEVICES - i)") auto

declare find_loop.simps [simp del]

text \<open>The second loop: the first slot not in use.\<close>

function alloc_loop :: "device_cache_t list \<Rightarrow> nat \<Rightarrow> nat option" where
  "alloc_loop ds i =
     (if i < MAX_DEVICES then
        (if \<not> in_use (ds ! i) then Some i else alloc_loop ds (i + 1))
      else None)"
  by pat_completeness auto
termination
  by (relation "measure (\<lambda>(ds, i). MAX_DEVICES - i)") auto

declare alloc_loop.simps [simp del]

definition cache_find_or_alloc :: "state \<Rightarrow> u8 list \<Rightarrow> int \<times> state" where
  "cache_find_or_alloc s a =
     (case find_loop (g_devices s) a 0 of
        Some i \<Rightarrow> (int i, s)
      | None \<Rightarrow>
          (case alloc_loop (g_devices s) 0 of
             Some i \<Rightarrow>
               (int i,
                s\<lparr>g_devices :=
                    (g_devices s)[i := zero_device\<lparr>in_use := True, addr := take 6 a\<rparr>]\<rparr>)
           | None \<Rightarrow> (- 1, s)))"

definition is_switchbot_mfg :: "u8 list \<Rightarrow> u8 \<Rightarrow> bool" where
  "is_switchbot_mfg m m_len =
     (if m_len < 2 then False
      else m ! 0 = SWITCHBOT_COMPANY_ID_LE0 \<and> m ! 1 = SWITCHBOT_COMPANY_ID_LE1)"

definition update_device_id :: "device_cache_t \<Rightarrow> device_cache_t" where
  "update_device_id d =
     (if have_mfg d \<and> mfg_len d \<ge> 8
      then d\<lparr>device_id := push_bit 8 (ucast (mfg d ! 6)) OR ucast (mfg d ! 7),
             have_device_id := True\<rparr>
      else d)"

text \<open>
  The test \<^verbatim>\<open>d->have_mfg && d->have_svc && is_switchbot_mfg(d->mfg, d->mfg_len)\<close>, which
  the source writes out in \<^verbatim>\<open>maybe_mark_latest\<close>, for \<^verbatim>\<open>was_merged\<close> in \<^verbatim>\<open>gap_event_cb\<close>
  and, as three \<^verbatim>\<open>continue\<close> tests, in the scan of \<^verbatim>\<open>OPCODE_LATEST_FOR\<close>.
\<close>

definition merged :: "device_cache_t \<Rightarrow> bool" where
  "merged d = (have_mfg d \<and> have_svc d \<and> is_switchbot_mfg (mfg d) (mfg_len d))"

definition maybe_mark_latest :: "state \<Rightarrow> nat \<Rightarrow> bool \<times> state" where
  "maybe_mark_latest s idx =
     (let d = g_devices s ! idx in
      if merged d
      then (True, s\<lparr>g_devices := (g_devices s)[idx := update_device_id d],
                     g_latest_index := int idx\<rparr>)
      else (False, s))"

section \<open>The discovery callback\<close>

text \<open>
  What the handlers do outside the state: calls into the radio stack and the flash
  library, and the \<^verbatim>\<open>MERGED\<close> log line of \<^verbatim>\<open>gap_event_cb\<close>.
\<close>

datatype effect =
  LOG_MERGED | GAP_DISC | GAP_DISC_CANCEL | NVS_FLASH_INIT | NVS_FLASH_ERASE
  | NIMBLE_PORT_INIT | MUTEX_CREATE | NIMBLE_HOST_TASK

text \<open>The fields of \<^verbatim>\<open>struct ble_gap_disc_desc\<close> that the callback reads.\<close>

record ble_gap_disc_desc =
  disc_addr :: "u8 list"
  disc_rssi :: u8
  disc_data :: "u8 list"
  disc_length_data :: u8

datatype ble_gap_event =
  BLE_GAP_EVENT_DISC ble_gap_disc_desc | BLE_GAP_EVENT_DISC_COMPLETE | BLE_GAP_EVENT_OTHER

definition store_mfg :: "u8 list \<Rightarrow> adv_extract_t \<Rightarrow> device_cache_t \<Rightarrow> device_cache_t option" where
  "store_mfg data ex d =
     (if has_mfg ex \<and> unat (ex_mfg_len ex) \<le> MAX_BLE_DATA then
        (case memcpy (mfg d) data (ex_mfg ex) (unat (ex_mfg_len ex)) of
           None \<Rightarrow> None
         | Some m \<Rightarrow> Some (d\<lparr>have_mfg := True, mfg_len := ex_mfg_len ex, mfg := m\<rparr>))
      else Some d)"

definition store_svc :: "u8 list \<Rightarrow> adv_extract_t \<Rightarrow> device_cache_t \<Rightarrow> device_cache_t option" where
  "store_svc data ex d =
     (if has_svc ex \<and> unat (ex_svc_len ex) \<le> MAX_BLE_DATA then
        (case memcpy (svc d) data (ex_svc ex) (unat (ex_svc_len ex)) of
           None \<Rightarrow> None
         | Some m \<Rightarrow> Some (d\<lparr>have_svc := True, svc_len := ex_svc_len ex, svc := m\<rparr>))
      else Some d)"

text \<open>The block \<^verbatim>\<open>if (idx >= 0) { ... }\<close> of the callback, for the slot \<open>idx\<close>.\<close>

definition disc_update ::
  "state \<Rightarrow> nat \<Rightarrow> ble_gap_disc_desc \<Rightarrow> adv_extract_t \<Rightarrow> (state \<times> effect list) option" where
  "disc_update s idx desc ex =
     (let d = g_devices s ! idx;
          was_merged = merged d;
          d1 = d\<lparr>rssi := disc_rssi desc\<rparr>
      in case store_mfg (disc_data desc) ex d1 of
           None \<Rightarrow> None
         | Some d2 \<Rightarrow>
             (case store_svc (disc_data desc) ex d2 of
                None \<Rightarrow> None
              | Some d3 \<Rightarrow>
                  let (merged_now, s') =
                        maybe_mark_latest (s\<lparr>g_devices := (g_devices s)[idx := d3]\<rparr>) idx
                  in Some (s', if \<not> was_merged \<and> merged_now then [LOG_MERGED] else [])))"

definition gap_event_cb :: "state \<Rightarrow> ble_gap_event \<Rightarrow> (state \<times> effect list) option" where
  "gap_event_cb s event =
     (case event of
        BLE_GAP_EVENT_DISC desc \<Rightarrow>
          (case adv_extract (disc_data desc) (disc_length_data desc) of
             None \<Rightarrow> None
           | Some ex \<Rightarrow>
               if \<not> has_mfg ex \<and> \<not> has_svc ex then Some (s, [])
               else
                 let (idx, s1) = cache_find_or_alloc s (disc_addr desc)
                 in if idx \<ge> 0 then disc_update s1 (nat idx) desc ex else Some (s1, []))
      | BLE_GAP_EVENT_DISC_COMPLETE \<Rightarrow> Some (s, [GAP_DISC])
      | BLE_GAP_EVENT_OTHER \<Rightarrow> Some (s, []))"

section \<open>The port calls\<close>

text \<open>
  \<^verbatim>\<open>reply_latest\<close>:
  \<^verbatim>\<open><<0, addr:6, rssi:s8, svc_len:u8, svc:svc_len, mfg_len:u8, mfg:mfg_len>>\<close>.
\<close>

definition reply_latest :: "device_cache_t \<Rightarrow> u8 list" where
  "reply_latest d =
     0x00 # (take 6 (addr d) @ [rssi d]
             @ [svc_len d] @ take (unat (svc_len d)) (svc d)
             @ [mfg_len d] @ take (unat (mfg_len d)) (mfg d))"

text \<open>A request term: a binary, or any other term.\<close>

datatype erl_term = Binary "u8 list" | NotBinary

text \<open>What \<^verbatim>\<open>nvs_flash_init\<close> may return, as far as the driver tells the values apart.\<close>

datatype esp_err_t =
  ESP_OK | ESP_ERR_NVS_NO_FREE_PAGES | ESP_ERR_NVS_NEW_VERSION_FOUND | ESP_FAIL

text \<open>
  \<^verbatim>\<open>case OPCODE_BLE_START\<close>; \<open>nvs1\<close> and \<open>nvs2\<close> are what the first and the second call
  of \<^verbatim>\<open>nvs_flash_init\<close> return.
\<close>

definition call_ble_start ::
  "state \<Rightarrow> esp_err_t \<Rightarrow> esp_err_t \<Rightarrow> u8 list \<times> state \<times> effect list" where
  "call_ble_start s nvs1 nvs2 =
     (if \<not> g_ble_started s then
        (let retry = (nvs1 = ESP_ERR_NVS_NO_FREE_PAGES \<or> nvs1 = ESP_ERR_NVS_NEW_VERSION_FOUND);
             err = (if retry then nvs2 else nvs1);
             fx = (if retry then [NVS_FLASH_INIT, NVS_FLASH_ERASE, NVS_FLASH_INIT]
                   else [NVS_FLASH_INIT])
         in if err \<noteq> ESP_OK then (make_error 0x30, s, fx)
            else (make_ok_with_payload [0x01], s\<lparr>g_ble_started := True\<rparr>,
                  fx @ [NIMBLE_PORT_INIT, MUTEX_CREATE, NIMBLE_HOST_TASK]))
      else (make_ok_with_payload [0x01], s, [GAP_DISC]))"

definition call_ble_stop :: "state \<Rightarrow> u8 list \<times> state \<times> effect list" where
  "call_ble_stop s =
     (if \<not> g_ble_started s then (make_error 0x32, s, [])
      else (make_ok_with_payload [0x01], s, [GAP_DISC_CANCEL]))"

definition call_latest :: "state \<Rightarrow> u8 list \<times> state \<times> effect list" where
  "call_latest s =
     (if \<not> g_ble_started s then (make_error 0x40, s, [])
      else
        let idx = g_latest_index s
        in if idx < 0 then (make_error 0x41, s, [])
           else (reply_latest (g_devices s ! nat idx), s, []))"

text \<open>The scan of \<^verbatim>\<open>case OPCODE_LATEST_FOR\<close>, which updates the slots it passes.\<close>

function latest_for_loop ::
  "device_cache_t list \<Rightarrow> u16 \<Rightarrow> nat \<Rightarrow> int \<times> device_cache_t list" where
  "latest_for_loop ds wanted i =
     (if i < MAX_DEVICES then
        (if \<not> in_use (ds ! i) then latest_for_loop ds wanted (i + 1)
         else if \<not> have_mfg (ds ! i) \<or> \<not> have_svc (ds ! i)
           then latest_for_loop ds wanted (i + 1)
         else if \<not> is_switchbot_mfg (mfg (ds ! i)) (mfg_len (ds ! i))
           then latest_for_loop ds wanted (i + 1)
         else
           let ds' = ds[i := update_device_id (ds ! i)]
           in if have_device_id (ds' ! i) \<and> device_id (ds' ! i) = wanted
              then (int i, ds')
              else latest_for_loop ds' wanted (i + 1))
      else (- 1, ds))"
  by pat_completeness auto
termination
  by (relation "measure (\<lambda>(ds, wanted, i). MAX_DEVICES - i)") auto

declare latest_for_loop.simps [simp del]

definition call_latest_for :: "state \<Rightarrow> u8 list \<Rightarrow> u8 list \<times> state \<times> effect list" where
  "call_latest_for s data =
     (if \<not> g_ble_started s then (make_error 0x40, s, [])
      else if length data < 1 + 2 then (make_error 0x42, s, [])
      else
        let wanted = (push_bit 8 (ucast (data ! 1)) OR ucast (data ! 2) :: u16);
            (found, ds) = latest_for_loop (g_devices s) wanted 0;
            s' = s\<lparr>g_devices := ds\<rparr>
        in if found < 0 then (make_error 0x43, s', [])
           else (reply_latest (ds ! nat found), s', []))"

definition handle_call ::
  "state \<Rightarrow> esp_err_t \<Rightarrow> esp_err_t \<Rightarrow> erl_term \<Rightarrow> u8 list \<times> state \<times> effect list" where
  "handle_call s nvs1 nvs2 req =
     (case req of
        NotBinary \<Rightarrow> (make_error 0x10, s, [])
      | Binary data \<Rightarrow>
          if length data < 1 then (make_error 0x11, s, [])
          else
            let opcode = data ! 0
            in if opcode = OPCODE_PING
                 then (make_ok_with_payload [0x50, 0x4F, 0x4E, 0x47], s, [])
               else if opcode = OPCODE_ECHO
                 then (make_ok_with_payload (drop 1 data), s, [])
               else if opcode = OPCODE_BLE_START then call_ble_start s nvs1 nvs2
               else if opcode = OPCODE_BLE_STOP then call_ble_stop s
               else if opcode = OPCODE_LATEST then call_latest s
               else if opcode = OPCODE_LATEST_FOR then call_latest_for s data
               else (make_error 0x12, s, []))"

section \<open>Runs of the driver\<close>

text \<open>
  The driver is entered by discovery events and by port calls. A run applies a list of
  them in order to a state; it is \<open>None\<close> when a step reads outside a buffer.
\<close>

datatype action = Event ble_gap_event | Call esp_err_t esp_err_t erl_term

definition step :: "state \<Rightarrow> action \<Rightarrow> state option" where
  "step s a =
     (case a of
        Event ev \<Rightarrow> map_option fst (gap_event_cb s ev)
      | Call nvs1 nvs2 req \<Rightarrow> Some (fst (snd (handle_call s nvs1 nvs2 req))))"

fun run :: "state \<Rightarrow> action list \<Rightarrow> state option" where
  "run s [] = Some s"
| "run s (a # as) = (case step s a of None \<Rightarrow> None | Some s' \<Rightarrow> run s' as)"

section \<open>The advertisement format, from the specification\<close>

text \<open>
  The specification describes a buffer as a concatenation of AD structures
  \<^verbatim>\<open>[length][type][value...]\<close>, where \<^verbatim>\<open>length\<close> counts the type byte and the value
  bytes, read from offset 0 until the buffer ends, a length byte is zero, or a declared
  length passes the end of the buffer. \<open>ad_structures\<close> lists the (type, value) pairs
  so read; it is the yardstick the parser above is compared with, and is not taken
  from the source.
\<close>

type_synonym ad_structure = "u8 \<times> u8 list"

function ad_structures :: "u8 list \<Rightarrow> ad_structure list" where
  "ad_structures [] = []"
| "ad_structures (l # rest) =
     (if l = 0 \<or> length rest < unat l then []
      else (hd rest, take (unat l - 1) (tl rest)) # ad_structures (drop (unat l) rest))"
  by pat_completeness auto
termination
  by (relation "measure length") auto

declare ad_structures.simps(2) [simp del]

text \<open>The encoding of one structure: its value has at most 254 bytes.\<close>

definition encode_ad :: "ad_structure \<Rightarrow> u8 list" where
  "encode_ad s = of_nat (1 + length (snd s)) # fst s # snd s"

definition well_formed_ad :: "ad_structure \<Rightarrow> bool" where
  "well_formed_ad s = (length (snd s) \<le> 254)"

text \<open>
  What may follow the well-formed structures: nothing, a zero length byte, or a
  structure whose declared length passes the end of the buffer.
\<close>

definition stops_parse :: "u8 list \<Rightarrow> bool" where
  "stops_parse tl_bytes =
     (case tl_bytes of [] \<Rightarrow> True | l # rest \<Rightarrow> l = 0 \<or> length rest < unat l)"

text \<open>
  A manufacturer structure has type \<^verbatim>\<open>0xFF\<close> and a value of two bytes or more; a
  service-data structure of the target has type \<^verbatim>\<open>0x16\<close>, a value of two bytes or more
  and the UUID \<^verbatim>\<open>0xFD3D\<close>, little-endian, in front.
\<close>

definition is_mfg_structure :: "ad_structure \<Rightarrow> bool" where
  "is_mfg_structure s = (fst s = 0xFF \<and> length (snd s) \<ge> 2)"

definition is_target_svc_structure :: "ad_structure \<Rightarrow> bool" where
  "is_target_svc_structure s =
     (fst s = 0x16 \<and> length (snd s) \<ge> 2 \<and> snd s ! 0 = 0x3D \<and> snd s ! 1 = 0xFD)"

text \<open>
  The fields of a list of structures: the value of the last manufacturer structure,
  and the value after the UUID of the last target service-data structure.
\<close>

definition fields_step ::
  "u8 list option \<times> u8 list option \<Rightarrow> ad_structure \<Rightarrow> u8 list option \<times> u8 list option" where
  "fields_step acc s =
     (if is_mfg_structure s then Some (snd s) else fst acc,
      if is_target_svc_structure s then Some (drop 2 (snd s)) else snd acc)"

definition fields_of :: "ad_structure list \<Rightarrow> u8 list option \<times> u8 list option" where
  "fields_of ss = foldl fields_step (None, None) ss"

text \<open>
  The bytes an extract stands for: what \<^verbatim>\<open>memcpy(d->mfg, ex.mfg, ex.mfg_len)\<close> and
  \<^verbatim>\<open>memcpy(d->svc, ex.svc, ex.svc_len)\<close> would copy out of the buffer.
\<close>

definition mfg_bytes :: "u8 list \<Rightarrow> adv_extract_t \<Rightarrow> u8 list option" where
  "mfg_bytes data e =
     (if has_mfg e then Some (take (unat (ex_mfg_len e)) (drop (ex_mfg e) data)) else None)"

definition svc_bytes :: "u8 list \<Rightarrow> adv_extract_t \<Rightarrow> u8 list option" where
  "svc_bytes data e =
     (if has_svc e then Some (take (unat (ex_svc_len e)) (drop (ex_svc e) data)) else None)"

definition extract_fields :: "u8 list \<Rightarrow> adv_extract_t \<Rightarrow> u8 list option \<times> u8 list option" where
  "extract_fields data e = (mfg_bytes data e, svc_bytes data e)"

text \<open>Both slices of an extract lie inside the first \<open>n\<close> bytes.\<close>

definition slices_within :: "nat \<Rightarrow> adv_extract_t \<Rightarrow> bool" where
  "slices_within n e =
     ((has_mfg e \<longrightarrow> ex_mfg e + unat (ex_mfg_len e) \<le> n) \<and>
      (has_svc e \<longrightarrow> ex_svc e + unat (ex_svc_len e) \<le> n))"

text \<open>The structures in the first \<open>data_len\<close> bytes of a buffer.\<close>

definition buffer_structures :: "u8 list \<Rightarrow> u8 \<Rightarrow> ad_structure list" where
  "buffer_structures data data_len = ad_structures (take (unat data_len) data)"

section \<open>Shapes of states and events\<close>

text \<open>
  What the C types fix: \<^verbatim>\<open>g_devices\<close> has \<^verbatim>\<open>MAX_DEVICES\<close> slots, the arrays \<^verbatim>\<open>mfg\<close> and
  \<^verbatim>\<open>svc\<close> have \<^verbatim>\<open>MAX_BLE_DATA\<close> bytes, and the stored lengths index into them.
\<close>

definition wf_device :: "device_cache_t \<Rightarrow> bool" where
  "wf_device d =
     (length (mfg d) = MAX_BLE_DATA \<and> length (svc d) = MAX_BLE_DATA \<and>
      unat (mfg_len d) \<le> MAX_BLE_DATA \<and> unat (svc_len d) \<le> MAX_BLE_DATA)"

definition wf_state :: "state \<Rightarrow> bool" where
  "wf_state s =
     (length (g_devices s) = MAX_DEVICES \<and> list_all wf_device (g_devices s) \<and>
      - 1 \<le> g_latest_index s \<and> g_latest_index s < int MAX_DEVICES)"

text \<open>A discovery descriptor whose buffer holds the bytes its length field declares.\<close>

definition wf_desc :: "ble_gap_disc_desc \<Rightarrow> bool" where
  "wf_desc desc = (unat (disc_length_data desc) \<le> length (disc_data desc))"

text \<open>
  The extract of a descriptor carries a field: the callback goes past its early
  \<^verbatim>\<open>return 0\<close>.
\<close>

definition carries_field :: "ble_gap_disc_desc \<Rightarrow> bool" where
  "carries_field desc =
     (case adv_extract (disc_data desc) (disc_length_data desc) of
        None \<Rightarrow> False
      | Some ex \<Rightarrow> has_mfg ex \<or> has_svc ex)"

text \<open>The addresses of the discovery events of a run that carry a field.\<close>

fun ingested_addrs :: "action list \<Rightarrow> u8 list list" where
  "ingested_addrs [] = []"
| "ingested_addrs (Event (BLE_GAP_EVENT_DISC desc) # as) =
     (if carries_field desc then take 6 (disc_addr desc) # ingested_addrs as
      else ingested_addrs as)"
| "ingested_addrs (a # as) = ingested_addrs as"

text \<open>
  What a descriptor makes the callback store: its manufacturer field (present and
  within \<^verbatim>\<open>MAX_BLE_DATA\<close>), its service field, and whether the manufacturer field
  starts with the vendor's company identifier.
\<close>

definition stores_mfg :: "ble_gap_disc_desc \<Rightarrow> bool" where
  "stores_mfg desc =
     (case adv_extract (disc_data desc) (disc_length_data desc) of
        None \<Rightarrow> False
      | Some ex \<Rightarrow> has_mfg ex \<and> unat (ex_mfg_len ex) \<le> MAX_BLE_DATA)"

definition stores_svc :: "ble_gap_disc_desc \<Rightarrow> bool" where
  "stores_svc desc =
     (case adv_extract (disc_data desc) (disc_length_data desc) of
        None \<Rightarrow> False
      | Some ex \<Rightarrow> has_svc ex \<and> unat (ex_svc_len ex) \<le> MAX_BLE_DATA)"

definition vendor_mfg :: "ble_gap_disc_desc \<Rightarrow> bool" where
  "vendor_mfg desc =
     (case adv_extract (disc_data desc) (disc_length_data desc) of
        None \<Rightarrow> False
      | Some ex \<Rightarrow>
          (case mfg_bytes (disc_data desc) ex of
             None \<Rightarrow> False
           | Some m \<Rightarrow>
               2 \<le> length m \<and> m ! 0 = SWITCHBOT_COMPANY_ID_LE0
               \<and> m ! 1 = SWITCHBOT_COMPANY_ID_LE1))"


text \<open>Every slot is in use; the addresses of the slots in use.\<close>

definition registry_full :: "state \<Rightarrow> bool" where
  "registry_full s = list_all in_use (g_devices s)"

definition in_use_addrs :: "state \<Rightarrow> u8 list list" where
  "in_use_addrs s = map (\<lambda>d. take 6 (addr d)) (filter in_use (g_devices s))"

text \<open>
  The different elements of a list in the order of their first occurrence: for the
  addresses a run ingests, the order in which they ask for a slot.
\<close>

definition add_new :: "'a list \<Rightarrow> 'a \<Rightarrow> 'a list" where
  "add_new xs x = (if x \<in> set xs then xs else xs @ [x])"

definition first_seen :: "'a list \<Rightarrow> 'a list" where
  "first_seen xs = foldl add_new [] xs"

text \<open>
  The slots hold the addresses of a list in its order: slot \<open>k\<close> is in use with the
  \<open>k\<close>-th address as long as the list has one, and free beyond the end of the list.
\<close>

definition slots_hold :: "state \<Rightarrow> u8 list list \<Rightarrow> bool" where
  "slots_hold s xs =
     (\<forall>k < MAX_DEVICES.
        (k < length xs \<longrightarrow>
           in_use (g_devices s ! k) \<and> take 6 (addr (g_devices s ! k)) = xs ! k) \<and>
        (length xs \<le> k \<longrightarrow> \<not> in_use (g_devices s ! k)))"

section \<open>Invariants of the states of a run\<close>

text \<open>
  The identifier that \<^verbatim>\<open>update_device_id\<close> computes from bytes 6 and 7 of a
  manufacturer payload.
\<close>

definition id_of_mfg :: "u8 list \<Rightarrow> u16" where
  "id_of_mfg m = push_bit 8 (ucast (m ! 6)) OR ucast (m ! 7)"

text \<open>A slot that is not in use is still zeroed.\<close>

definition unused_zero :: "state \<Rightarrow> bool" where
  "unused_zero s =
     (\<forall>k < MAX_DEVICES. \<not> in_use (g_devices s ! k) \<longrightarrow> g_devices s ! k = zero_device)"

text \<open>The slot that \<^verbatim>\<open>g_latest_index\<close> names is in use and holds both halves.\<close>

definition latest_complete :: "state \<Rightarrow> bool" where
  "latest_complete s =
     (0 \<le> g_latest_index s \<longrightarrow>
        in_use (g_devices s ! nat (g_latest_index s)) \<and>
        have_mfg (g_devices s ! nat (g_latest_index s)) \<and>
        have_svc (g_devices s ! nat (g_latest_index s)))"

text \<open>
  A record that passes the merge test with a manufacturer payload of eight bytes or
  more carries the identifier of that payload.
\<close>

definition ids_current :: "state \<Rightarrow> bool" where
  "ids_current s =
     (\<forall>k < MAX_DEVICES.
        merged (g_devices s ! k) \<and> 8 \<le> mfg_len (g_devices s ! k) \<longrightarrow>
          have_device_id (g_devices s ! k) \<and>
          device_id (g_devices s ! k) = id_of_mfg (mfg (g_devices s ! k)))"

definition run_inv :: "state \<Rightarrow> bool" where
  "run_inv s = (wf_state s \<and> unused_zero s \<and> latest_complete s \<and> ids_current s)"

section \<open>Concrete inputs\<close>

text \<open>
  Two addresses, and advertisements as a device sends them: \<open>adv_full\<close> carries a
  manufacturer structure of eight bytes with the vendor's company identifier and an
  empty service-data structure of the target UUID; \<open>adv_mfg\<close> and \<open>adv_svc\<close> carry
  the two halves apart; \<open>adv_short\<close> carries a vendor manufacturer structure of two
  bytes, \<open>adv_other\<close> a manufacturer structure of another company, and \<open>adv_flags\<close>
  neither field.
\<close>

definition addr_A :: "u8 list" where "addr_A = [0x00, 0x11, 0x22, 0x33, 0x44, 0x55]"

definition adv_full :: "u8 list" where
  "adv_full = [9, 0xFF, 0x69, 0x09, 0, 0, 0, 0, 0x12, 0x34, 3, 0x16, 0x3D, 0xFD]"

definition adv_mfg :: "u8 list" where
  "adv_mfg = [9, 0xFF, 0x69, 0x09, 0, 0, 0, 0, 0x12, 0x34]"

definition adv_svc :: "u8 list" where
  "adv_svc = [5, 0x16, 0x3D, 0xFD, 0xAA, 0xBB]"

definition adv_short :: "u8 list" where
  "adv_short = [3, 0xFF, 0x69, 0x09]"

definition adv_other :: "u8 list" where
  "adv_other = [3, 0xFF, 0x00, 0x01]"

definition adv_flags :: "u8 list" where
  "adv_flags = [2, 0x01, 0x06]"

text \<open>A discovery event whose length field is the length of its buffer.\<close>

definition disc :: "u8 list \<Rightarrow> u8 \<Rightarrow> u8 list \<Rightarrow> ble_gap_event" where
  "disc a r d =
     BLE_GAP_EVENT_DISC
       \<lparr>disc_addr = a, disc_rssi = r, disc_data = d, disc_length_data = of_nat (length d)\<rparr>"

definition START :: action where
  "START = Call ESP_OK ESP_OK (Binary [OPCODE_BLE_START])"

definition started_state :: state where
  "started_state = init_state\<lparr>g_ble_started := True\<rparr>"

text \<open>What is seen after a run from the initial state: a slot, the index, a reply.\<close>

definition slot_after :: "action list \<Rightarrow> nat \<Rightarrow> device_cache_t option" where
  "slot_after acts i = map_option (\<lambda>s. g_devices s ! i) (run init_state acts)"

definition latest_after :: "action list \<Rightarrow> int option" where
  "latest_after acts = map_option g_latest_index (run init_state acts)"

definition reply_after :: "action list \<Rightarrow> erl_term \<Rightarrow> u8 list option" where
  "reply_after acts req =
     map_option (\<lambda>s. fst (handle_call s ESP_OK ESP_OK req)) (run init_state acts)"

text \<open>Manufacturer-only advertisements from twelve different addresses.\<close>

definition twelve_events :: "action list" where
  "twelve_events =
     map (\<lambda>i. Event (disc [i, 0x11, 0x22, 0x33, 0x44, 0x55] 0xC4 adv_mfg))
       [0, 1, 2, 3, 4, 5, 6, 7, 8, 9, 10, 11]"

definition addr_M :: "u8 list" where "addr_M = [0x0C, 0x11, 0x22, 0x33, 0x44, 0x55]"

definition addr_3 :: "u8 list" where "addr_3 = [0x03, 0x11, 0x22, 0x33, 0x44, 0x55]"

section \<open>Verification\<close>

lemma rd_in [simp]: "k < length data \<Longrightarrow> rd data k = Some (data ! k)"
  by (simp add: rd_def)

lemma make_ok_with_payload_eq: "make_ok_with_payload p = 0x00 # p"
  by (simp add: make_ok_with_payload_def)

lemma u8_val_len:
  fixes len :: u8
  assumes "len \<noteq> 0"
  shows "unat (len - 1) = unat len - 1" and "(2 \<le> len - 1) = (3 \<le> unat len)"
proof -
  show a: "unat (len - 1) = unat len - 1" using assms by (rule unat_minus_one)
  show "(2 \<le> len - 1) = (3 \<le> unat len)"
    using a by (simp add: word_le_nat_alt) arith
qed

lemma u8_val_len2:
  fixes len :: u8
  assumes "3 \<le> unat len"
  shows "unat (len - 3) = unat len - 3"
proof -
  have "(3::u8) \<le> len" using assms by (simp add: word_le_nat_alt)
  then have "unat (len - 3) = unat len - unat (3::u8)" by (rule unat_sub)
  then show ?thesis by simp
qed

lemma drop2_value:
  "drop 2 (take (m - Suc 0) (drop (Suc (Suc k)) xs))
     = take (m - 3) (drop (Suc (Suc (Suc (Suc k)))) xs)"
  by (simp add: drop_take eval_nat_numeral)

lemma u8_next:
  fixes i len dl :: u8
  assumes "unat i + unat len < unat dl"
  shows "unat (i + 1 + len) = unat i + 1 + unat len"
proof -
  have "unat dl < 256" using unsigned_less [of dl, where ?'a = nat] by simp
  with assms have small: "unat i + 1 + unat len < 256" by simp
  have "unat (i + 1 + len) = (unat i + 1 + unat len) mod 256"
    by (simp add: unat_word_ariths mod_simps)
  with small show ?thesis by simp
qed

lemma adv_step_fields:
  assumes len: "len \<noteq> 0" and inb: "unat i + unat len < length data"
    and sw: "slices_within n out" and n: "unat i + 1 + unat len \<le> n"
  shows "\<exists>out1. adv_step data i len out = Some out1
           \<and> extract_fields data out1
               = fields_step (extract_fields data out)
                   (data ! (unat i + 1), take (unat len - 1) (drop (unat i + 2) data))
           \<and> slices_within n out1"
proof -
  have vl: "unat (len - 1) = unat len - 1" "(2 \<le> len - 1) = (3 \<le> unat len)"
    using u8_val_len [OF len] by auto
  have l1: "1 \<le> unat len" using len by (simp add: unat_gt_0 Suc_le_eq)
  show ?thesis
  proof (cases "3 \<le> unat len")
    case False
    then show ?thesis using inb l1 sw
      by (auto simp: adv_step_def Let_def vl fields_step_def is_mfg_structure_def
          is_target_svc_structure_def extract_fields_def)
  next
    case True
    have v2: "unat (len - 3) = unat len - 3" using u8_val_len2 [OF True] .
    note d2 = drop2_value
    from True inb sw n show ?thesis
      by (auto simp: adv_step_def Let_def vl v2 d2 fields_step_def is_mfg_structure_def
          is_target_svc_structure_def extract_fields_def mfg_bytes_def svc_bytes_def
          slices_within_def SWITCHBOT_SVC_UUID16_LE0_def SWITCHBOT_SVC_UUID16_LE1_def)
  qed
qed


lemma ad_structures_at:
  assumes i: "unat i < n" and n: "n \<le> length data"
  shows "ad_structures (drop (unat i) (take n data)) =
           (if data ! unat i = 0 \<or> n \<le> unat i + unat (data ! unat i) then []
            else (data ! (unat i + 1),
                  take (unat (data ! unat i) - 1) (drop (unat i + 2) data))
                 # ad_structures (drop (unat i + 1 + unat (data ! unat i)) (take n data)))"
proof -
  let ?len = "data ! unat i"
  let ?rest = "drop (unat i + 1) (take n data)"
  have dr: "drop (unat i) (take n data) = ?len # ?rest"
    using i n by (simp add: Cons_nth_drop_Suc [symmetric])
  have lr: "length ?rest = n - unat i - 1"
    using n by simp
  show ?thesis
  proof (cases "?len = 0 \<or> n \<le> unat i + unat ?len")
    case True
    then show ?thesis using lr i by (auto simp: dr ad_structures.simps(2))
  next
    case False
    then have ok: "?len \<noteq> 0" "unat i + unat ?len < n" by auto
    have l1: "1 \<le> unat ?len" using ok(1) by (simp add: unat_gt_0 Suc_le_eq)
    have hd: "hd ?rest = data ! (unat i + 1)"
      using ok l1 n by (simp add: hd_drop_conv_nth)
    have t1: "tl ?rest = drop (unat i + 2) (take n data)"
      by (simp add: tl_drop drop_Suc)
    have t2: "drop (unat i + 2) (take n data) = take (n - (unat i + 2)) (drop (unat i + 2) data)"
      by (rule drop_take)
    have t3: "min (unat ?len - 1) (n - (unat i + 2)) = unat ?len - 1"
      using ok l1 by simp
    have tl: "take (unat ?len - 1) (tl ?rest) = take (unat ?len - 1) (drop (unat i + 2) data)"
      by (simp only: t1 t2 take_take t3)
    have nx: "drop (unat ?len) ?rest = drop (unat i + 1 + unat ?len) (take n data)"
      by (simp add: add.commute add.left_commute)
    have "\<not> length ?rest < unat ?len" using lr ok by simp
    then show ?thesis using False
      by (simp only: dr ad_structures.simps(2) ok(1) hd tl nx if_False simp_thms)
  qed
qed

lemma adv_loop_fields:
  assumes "unat dl \<le> length data" and "unat i \<le> unat dl"
    and "slices_within (unat dl) out"
  shows "\<exists>out'. adv_loop data dl i out = Some out'
           \<and> extract_fields data out'
               = foldl fields_step (extract_fields data out)
                   (ad_structures (drop (unat i) (take (unat dl) data)))
           \<and> slices_within (unat dl) out'"
  using assms
proof (induction data dl i out rule: adv_loop.induct)
  case (1 data dl i out)
  show ?case
  proof (cases "i < dl")
    case False
    with "1.prems" have "unat i = unat dl" by (simp add: word_less_nat_alt)
    with False "1.prems" show ?thesis
      by (simp add: adv_loop.simps [of data dl i])
  next
    case True
    let ?len = "data ! unat i"
    have ilt: "unat i < unat dl" using True by (simp add: word_less_nat_alt)
    have rdi: "rd data (unat i) = Some ?len"
      using ilt "1.prems"(1) by simp
    note at = ad_structures_at [OF ilt "1.prems"(1)]
    show ?thesis
    proof (cases "?len = 0 \<or> unat dl \<le> unat i + unat ?len")
      case stop: True
      then show ?thesis using True rdi "1.prems"(3)
        by (auto simp: adv_loop.simps [of data dl i] at)
    next
      case go: False
      then have ok: "?len \<noteq> 0" "unat i + unat ?len < unat dl" by auto
      from ok(2) "1.prems"(1) have inb: "unat i + unat ?len < length data" by simp
      from ok(2) have nb: "unat i + 1 + unat ?len \<le> unat dl" by simp
      from adv_step_fields [OF ok(1) inb "1.prems"(3) nb]
      obtain out1 where st: "adv_step data i ?len out = Some out1"
        and f1: "extract_fields data out1
                   = fields_step (extract_fields data out)
                       (data ! (unat i + 1), take (unat ?len - 1) (drop (unat i + 2) data))"
        and s1: "slices_within (unat dl) out1"
        by blast
      have nxt: "unat (i + 1 + ?len) = unat i + 1 + unat ?len"
        using u8_next [OF ok(2)] .
      have "unat (i + 1 + ?len) \<le> unat dl" using nxt nb by simp
      from "1.IH" [OF True rdi ok(1) _ st "1.prems"(1) this s1] ok(2)
      obtain out' where r: "adv_loop data dl (i + 1 + ?len) out1 = Some out'"
        and f': "extract_fields data out'
                   = foldl fields_step (extract_fields data out1)
                       (ad_structures (drop (unat (i + 1 + ?len)) (take (unat dl) data)))"
        and s': "slices_within (unat dl) out'"
        by auto
      have "adv_loop data dl i out = Some out'"
        using True rdi ok st r by (simp add: adv_loop.simps [of data dl i])
      moreover have "extract_fields data out'
                   = foldl fields_step (extract_fields data out)
                       (ad_structures (drop (unat i) (take (unat dl) data)))"
        using go by (simp add: at f' f1 nxt)
      ultimately show ?thesis using s' by blast
    qed
  qed
qed


lemma extract_fields_init: "extract_fields data adv_extract_init = (None, None)"
  by (simp add: extract_fields_def mfg_bytes_def svc_bytes_def adv_extract_init_def)

lemma slices_within_init: "slices_within n adv_extract_init"
  by (simp add: slices_within_def adv_extract_init_def)

lemma adv_extract_fields:
  assumes "unat dl \<le> length data"
  shows "\<exists>e. adv_extract data dl = Some e
           \<and> extract_fields data e = fields_of (ad_structures (take (unat dl) data))
           \<and> slices_within (unat dl) e"
  using adv_loop_fields [OF assms, of 0 adv_extract_init]
  by (simp add: adv_extract_def extract_fields_init slices_within_init fields_of_def)

lemma rd_take: "k < n \<Longrightarrow> n \<le> length data \<Longrightarrow> rd (take n data) k = rd data k"
  by (simp add: rd_def)

lemma adv_step_take:
  assumes len: "len \<noteq> 0" and inb: "unat i + unat len < n" and n: "n \<le> length data"
  shows "adv_step (take n data) i len out = adv_step data i len out"
proof -
  have vl: "(2 \<le> len - 1) = (3 \<le> unat len)"
    using u8_val_len [OF len] by simp
  have l1: "1 \<le> unat len" using len by (simp add: unat_gt_0 Suc_le_eq)
  have r1: "rd (take n data) (unat i + 1) = rd data (unat i + 1)"
    using inb l1 n by (intro rd_take) auto
  show ?thesis
  proof (cases "3 \<le> unat len")
    case False
    then show ?thesis using r1 by (auto simp add: adv_step_def vl Let_def split: option.splits)
  next
    case True
    have r2: "rd (take n data) (unat i + 2) = rd data (unat i + 2)"
      using inb True n by (intro rd_take) auto
    have r3: "rd (take n data) (unat i + 2 + 1) = rd data (unat i + 2 + 1)"
      using inb True n by (intro rd_take) auto
    show ?thesis by (simp only: adv_step_def r1 r2 r3 Let_def)
  qed
qed

lemma adv_loop_take:
  assumes "unat dl \<le> length data"
  shows "adv_loop (take (unat dl) data) dl i out = adv_loop data dl i out"
  using assms
proof (induction data dl i out rule: adv_loop.induct)
  case (1 data dl i out)
  show ?case
  proof (cases "i < dl")
    case False
    then show ?thesis
      by (simp add: adv_loop.simps [of _ dl i])
  next
    case True
    let ?len = "data ! unat i"
    have ilt: "unat i < unat dl" using True by (simp add: word_less_nat_alt)
    have rdi: "rd data (unat i) = Some ?len"
      using ilt "1.prems" by simp
    have rdt: "rd (take (unat dl) data) (unat i) = Some ?len"
      using ilt "1.prems" by (simp add: rd_take)
    show ?thesis
    proof (cases "?len = 0 \<or> unat dl \<le> unat i + unat ?len")
      case stop: True
      then show ?thesis using True rdi rdt
        by (auto simp: adv_loop.simps [of _ dl i])
    next
      case go: False
      then have ok: "?len \<noteq> 0" "unat i + unat ?len < unat dl" by auto
      note st = adv_step_take [OF ok "1.prems", of out]
      show ?thesis
      proof (cases "adv_step data i ?len out")
        case None
        then show ?thesis using True rdi rdt ok st
          by (simp add: adv_loop.simps [of _ dl i])
      next
        case (Some out1)
        from "1.IH" [OF True rdi ok(1) _ Some "1.prems"] ok(2)
        have "adv_loop (take (unat dl) data) dl (i + 1 + ?len) out1
                = adv_loop data dl (i + 1 + ?len) out1"
          by simp
        then show ?thesis using True rdi rdt ok st Some
          by (simp add: adv_loop.simps [of _ dl i])
      qed
    qed
  qed
qed

lemma unat_encode_len:
  assumes "well_formed_ad s"
  shows "unat (of_nat (Suc (length (snd s))) :: u8) = Suc (length (snd s))"
proof -
  have "Suc (length (snd s)) < 256"
    using assms by (simp add: well_formed_ad_def)
  then show ?thesis by (simp add: unat_of_nat del: of_nat_Suc)
qed

lemma ad_structures_encode:
  assumes "well_formed_ad s"
  shows "ad_structures (encode_ad s @ rest) = s # ad_structures rest"
proof -
  note u = unat_encode_len [OF assms]
  have nz: "(of_nat (Suc (length (snd s))) :: u8) \<noteq> 0"
    using u by (metis Zero_not_Suc unat_0)
  show ?thesis
    using nz u by (cases s) (simp add: encode_ad_def ad_structures.simps(2) del: of_nat_Suc)
qed

lemma ad_structures_stop: "stops_parse bs \<Longrightarrow> ad_structures bs = []"
  by (cases bs) (auto simp: stops_parse_def ad_structures.simps(2))

lemma ad_structures_roundtrip:
  assumes "list_all well_formed_ad ss" and "stops_parse bs"
  shows "ad_structures (concat (map encode_ad ss) @ bs) = ss"
  using assms
  by (induction ss) (simp_all add: ad_structures_stop ad_structures_encode)

lemma foldl_fields_step_snd:
  "snd (foldl fields_step acc ss) =
     (if filter is_target_svc_structure ss = [] then snd acc
      else Some (drop 2 (snd (last (filter is_target_svc_structure ss)))))"
  by (induction ss arbitrary: acc) (auto simp: fields_step_def)

lemma foldl_fields_step_fst:
  "fst (foldl fields_step acc ss) =
     (if filter is_mfg_structure ss = [] then fst acc
      else Some (snd (last (filter is_mfg_structure ss))))"
  by (induction ss arbitrary: acc) (auto simp: fields_step_def)

lemma fields_of_svc:
  "snd (fields_of ss) =
     (if filter is_target_svc_structure ss = [] then None
      else Some (drop 2 (snd (last (filter is_target_svc_structure ss)))))"
  by (simp add: fields_of_def foldl_fields_step_snd)

lemma fields_of_mfg:
  "fst (fields_of ss) =
     (if filter is_mfg_structure ss = [] then None
      else Some (snd (last (filter is_mfg_structure ss))))"
  by (simp add: fields_of_def foldl_fields_step_fst)

lemma last_filter_holds: "filter P xs \<noteq> [] \<Longrightarrow> P (last (filter P xs)) \<and> last (filter P xs) \<in> set xs"
proof -
  assume ne: "filter P xs \<noteq> []"
  then have "last (filter P xs) \<in> set (filter P xs)" by (rule last_in_set)
  then show ?thesis by simp
qed

text \<open>
  C4. The parser reads no byte at or beyond the declared length: on a buffer that holds
  exactly the declared \<open>data_len\<close> bytes every read succeeds, and a longer buffer gives
  the same result, whose two slices end within the declared length. It stops, without
  failing, at the end of the buffer, at a zero length byte and at a structure whose
  declared length passes the end: when the declared bytes are well-formed structures
  \<open>ss\<close> followed by such a tail, the result holds exactly the fields of \<open>ss\<close>.
\<close>

theorem adv_extract_truncation_safe:
  assumes "unat data_len \<le> length data"
  shows "\<exists>e. adv_extract (take (unat data_len) data) data_len = Some e
           \<and> adv_extract data data_len = Some e
           \<and> slices_within (unat data_len) e
           \<and> (\<forall>ss bs. take (unat data_len) data = concat (map encode_ad ss) @ bs
                  \<and> list_all well_formed_ad ss \<and> stops_parse bs
                \<longrightarrow> extract_fields data e = fields_of ss)"
proof -
  from adv_extract_fields [OF assms]
  obtain e where e: "adv_extract data data_len = Some e"
    and f: "extract_fields data e = fields_of (ad_structures (take (unat data_len) data))"
    and w: "slices_within (unat data_len) e"
    by blast
  have "adv_extract (take (unat data_len) data) data_len = Some e"
    using e adv_loop_take [OF assms] by (simp add: adv_extract_def)
  moreover have "extract_fields data e = fields_of ss"
    if "take (unat data_len) data = concat (map encode_ad ss) @ bs"
      and "list_all well_formed_ad ss" and "stops_parse bs" for ss bs
    using that f by (simp add: ad_structures_roundtrip)
  ultimately show ?thesis using e w by blast
qed

theorem adv_extract_truncation_safe_witness:
  "unat (7 :: u8) \<le> length [3, 0xFF, 0x69, 0x09, 5, 0x16, 0x3D :: u8]
   \<and> (\<exists>e. adv_extract [3, 0xFF, 0x69, 0x09, 5, 0x16, 0x3D] 7 = Some e
          \<and> slices_within 7 e
          \<and> extract_fields [3, 0xFF, 0x69, 0x09, 5, 0x16, 0x3D] e = (Some [0x69, 0x09], None))"
proof -
  let ?D = "[3, 0xFF, 0x69, 0x09, 5, 0x16, 0x3D :: u8]"
  have h: "unat (7 :: u8) \<le> length ?D" by simp
  from adv_extract_truncation_safe [OF h]
  obtain e where e: "adv_extract ?D 7 = Some e" and w: "slices_within (unat (7 :: u8)) e"
    and a: "\<forall>ss bs. take (unat (7 :: u8)) ?D = concat (map encode_ad ss) @ bs
                  \<and> list_all well_formed_ad ss \<and> stops_parse bs
                \<longrightarrow> extract_fields ?D e = fields_of ss"
    by blast
  from a [rule_format, of "[(0xFF, [0x69, 0x09])]" "[5, 0x16, 0x3D]"]
  have "extract_fields ?D e = fields_of [(0xFF, [0x69, 0x09])]"
    by (simp add: encode_ad_def well_formed_ad_def stops_parse_def)
  then have "extract_fields ?D e = (Some [0x69, 0x09], None)"
    by (simp add: fields_of_def fields_step_def is_mfg_structure_def
        is_target_svc_structure_def)
  with e w h show ?thesis by simp
qed

text \<open>
  C5. The parser's output has a service payload exactly when one of the structures in
  the buffer has type \<^verbatim>\<open>0x16\<close>, a value of two bytes or more and the bytes \<^verbatim>\<open>0x3D\<close>,
  \<^verbatim>\<open>0xFD\<close> in front. The payload is then the value of such a structure (the last one)
  without its first two bytes, of length value length minus two. When no structure of
  type \<^verbatim>\<open>0x16\<close> starts with the target UUID there is no service payload, whatever the
  lengths.
\<close>

theorem adv_extract_service_payload:
  assumes "unat data_len \<le> length data"
  shows "\<exists>e. adv_extract data data_len = Some e
           \<and> (has_svc e \<longleftrightarrow>
                (\<exists>s \<in> set (buffer_structures data data_len). is_target_svc_structure s))
           \<and> (has_svc e \<longrightarrow>
                (\<exists>s \<in> set (buffer_structures data data_len).
                    is_target_svc_structure s
                  \<and> s = last (filter is_target_svc_structure (buffer_structures data data_len))
                  \<and> svc_bytes data e = Some (drop 2 (snd s))
                  \<and> unat (ex_svc_len e) = length (snd s) - 2))
           \<and> ((\<forall>s \<in> set (buffer_structures data data_len).
                   fst s = 0x16 \<longrightarrow> \<not> (snd s ! 0 = 0x3D \<and> snd s ! 1 = 0xFD))
                \<longrightarrow> \<not> has_svc e)"
proof -
  let ?ss = "buffer_structures data data_len"
  let ?ts = "filter is_target_svc_structure ?ss"
  from adv_extract_fields [OF assms]
  obtain e where e: "adv_extract data data_len = Some e"
    and f: "extract_fields data e = fields_of ?ss"
    and w: "slices_within (unat data_len) e"
    by (auto simp: buffer_structures_def)
  from f have "svc_bytes data e = snd (fields_of ?ss)"
    by (simp add: extract_fields_def prod_eq_iff)
  then have sv: "svc_bytes data e =
      (if ?ts = [] then None else Some (drop 2 (snd (last ?ts))))"
    by (simp only: fields_of_svc)
  have iff: "has_svc e \<longleftrightarrow> ?ts \<noteq> []"
    using sv by (auto simp: svc_bytes_def split: if_splits)
  have ex: "?ts \<noteq> [] \<longleftrightarrow> (\<exists>s \<in> set ?ss. is_target_svc_structure s)"
    by (simp add: filter_empty_conv)
  have pay: "last ?ts \<in> set ?ss \<and> is_target_svc_structure (last ?ts)
      \<and> svc_bytes data e = Some (drop 2 (snd (last ?ts)))
      \<and> unat (ex_svc_len e) = length (snd (last ?ts)) - 2" if h: "has_svc e"
  proof -
    from h iff have ne: "?ts \<noteq> []" by simp
    from last_filter_holds [OF ne] have l: "is_target_svc_structure (last ?ts)" "last ?ts \<in> set ?ss"
      by auto
    from sv ne have b: "svc_bytes data e = Some (drop 2 (snd (last ?ts)))" by simp
    from h w assms have "ex_svc e + unat (ex_svc_len e) \<le> length data"
      by (simp add: slices_within_def)
    moreover from b h have "take (unat (ex_svc_len e)) (drop (ex_svc e) data) = drop 2 (snd (last ?ts))"
      by (simp add: svc_bytes_def)
    then have "length (take (unat (ex_svc_len e)) (drop (ex_svc e) data)) = length (snd (last ?ts)) - 2"
      by simp
    ultimately have "unat (ex_svc_len e) = length (snd (last ?ts)) - 2"
      by simp
    with l b show ?thesis by simp
  qed
  have none: "\<not> has_svc e"
    if "\<forall>s \<in> set ?ss. fst s = 0x16 \<longrightarrow> \<not> (snd s ! 0 = 0x3D \<and> snd s ! 1 = 0xFD)"
    using that iff ex by (auto simp: is_target_svc_structure_def)
  from e iff ex pay none show ?thesis by blast
qed

theorem adv_extract_service_payload_witness:
  "unat (9 :: u8) \<le> length [3, 0x16, 0x3D, 0xFD, 5, 0x16, 0x3D, 0xFD, 0xAA, 0xBB :: u8]
   \<and> (\<exists>e. adv_extract [3, 0x16, 0x3D, 0xFD, 5, 0x16, 0x3D, 0xFD, 0xAA, 0xBB] 9 = Some e
          \<and> has_svc e)"
proof -
  let ?D = "[3, 0x16, 0x3D, 0xFD, 5, 0x16, 0x3D, 0xFD, 0xAA, 0xBB :: u8]"
  have h: "unat (9 :: u8) \<le> length ?D" by simp
  have s: "buffer_structures ?D 9 = [(0x16, [0x3D, 0xFD])]"
    by (simp add: buffer_structures_def ad_structures.simps(2))
  from adv_extract_service_payload [OF h]
  obtain e where e: "adv_extract ?D 9 = Some e"
    and i: "has_svc e \<longleftrightarrow> (\<exists>s \<in> set (buffer_structures ?D 9). is_target_svc_structure s)"
    by blast
  from i have "has_svc e"
    by (simp add: s is_target_svc_structure_def)
  with e h show ?thesis by simp
qed

subsection \<open>The slot search\<close>

lemma find_loop_Some:
  "find_loop ds a i = Some j \<Longrightarrow>
     i \<le> j \<and> j < MAX_DEVICES \<and> in_use (ds ! j) \<and> memcmp6 (addr (ds ! j)) a"
proof (induction ds a i rule: find_loop.induct)
  case (1 ds a i)
  then show ?case
    by (simp add: find_loop.simps [of ds a i] split: if_splits)
qed

lemma find_loop_None:
  "find_loop ds a i = None \<Longrightarrow> i \<le> k \<Longrightarrow> k < MAX_DEVICES \<Longrightarrow>
     \<not> (in_use (ds ! k) \<and> memcmp6 (addr (ds ! k)) a)"
proof (induction ds a i rule: find_loop.induct)
  case (1 ds a i)
  show ?case
  proof (cases "k = i")
    case True
    with "1.prems" show ?thesis
      by (simp add: find_loop.simps [of ds a i] split: if_splits)
  next
    case False
    with "1.prems" have "Suc i \<le> k" by simp
    with "1.prems" "1.IH" show ?thesis
      by (simp add: find_loop.simps [of ds a i] split: if_splits)
  qed
qed

lemma alloc_loop_Some:
  "alloc_loop ds i = Some j \<Longrightarrow> i \<le> j \<and> j < MAX_DEVICES \<and> \<not> in_use (ds ! j)"
proof (induction ds i rule: alloc_loop.induct)
  case (1 ds i)
  then show ?case
    by (simp add: alloc_loop.simps [of ds i] split: if_splits)
qed

lemma alloc_loop_None:
  "alloc_loop ds i = None \<Longrightarrow> i \<le> k \<Longrightarrow> k < MAX_DEVICES \<Longrightarrow> in_use (ds ! k)"
proof (induction ds i rule: alloc_loop.induct)
  case (1 ds i)
  show ?case
  proof (cases "k = i")
    case True
    with "1.prems" show ?thesis
      by (simp add: alloc_loop.simps [of ds i] split: if_splits)
  next
    case False
    with "1.prems" have "Suc i \<le> k" by simp
    with "1.prems" "1.IH" show ?thesis
      by (simp add: alloc_loop.simps [of ds i] split: if_splits)
  qed
qed

lemma alloc_loop_full:
  "(\<And>k. i \<le> k \<Longrightarrow> k < MAX_DEVICES \<Longrightarrow> in_use (ds ! k)) \<Longrightarrow> alloc_loop ds i = None"
proof (induction ds i rule: alloc_loop.induct)
  case (1 ds i)
  show ?case
  proof (cases "i < MAX_DEVICES")
    case True
    then have "in_use (ds ! i)" using "1.prems" by simp
    moreover have "alloc_loop ds (i + 1) = None"
      using "1.IH" [OF True] calculation "1.prems" by simp
    ultimately show ?thesis using True by (simp add: alloc_loop.simps [of ds i])
  next
    case False
    then show ?thesis by (simp add: alloc_loop.simps [of ds i])
  qed
qed

text \<open>The three ways \<^verbatim>\<open>cache_find_or_alloc\<close> returns.\<close>

lemma cache_find_or_alloc_cases:
  obtains (found) j where "find_loop (g_devices s) a 0 = Some j"
      and "cache_find_or_alloc s a = (int j, s)"
  | (fresh) j where "find_loop (g_devices s) a 0 = None"
      and "alloc_loop (g_devices s) 0 = Some j"
      and "cache_find_or_alloc s a =
             (int j, s\<lparr>g_devices :=
                 (g_devices s)[j := zero_device\<lparr>in_use := True, addr := take 6 a\<rparr>]\<rparr>)"
  | (dropped) "find_loop (g_devices s) a 0 = None" and "alloc_loop (g_devices s) 0 = None"
      and "cache_find_or_alloc s a = (- 1, s)"
  by (cases "find_loop (g_devices s) a 0"; cases "alloc_loop (g_devices s) 0")
     (auto simp: cache_find_or_alloc_def)

subsection \<open>Storing the halves\<close>

lemma merged_update_device_id [simp]: "merged (update_device_id d) = merged d"
  by (simp add: merged_def update_device_id_def)

lemma update_device_id_idem [simp]:
  "update_device_id (update_device_id d) = update_device_id d"
  by (simp add: update_device_id_def)

lemma update_device_id_fields [simp]:
  "in_use (update_device_id d) = in_use d"
  "addr (update_device_id d) = addr d"
  "rssi (update_device_id d) = rssi d"
  "have_mfg (update_device_id d) = have_mfg d"
  "mfg_len (update_device_id d) = mfg_len d"
  "mfg (update_device_id d) = mfg d"
  "have_svc (update_device_id d) = have_svc d"
  "svc_len (update_device_id d) = svc_len d"
  "svc (update_device_id d) = svc d"
  by (simp_all add: update_device_id_def)

lemma wf_device_update_device_id [simp]: "wf_device (update_device_id d) = wf_device d"
  by (simp add: wf_device_def)

lemma reply_latest_update_device_id [simp]:
  "reply_latest (update_device_id d) = reply_latest d"
  by (simp add: reply_latest_def)

lemma store_mfg_Some:
  assumes "store_mfg data ex d = Some d2"
  shows "d2 = (if has_mfg ex \<and> unat (ex_mfg_len ex) \<le> MAX_BLE_DATA
               then d\<lparr>have_mfg := True, mfg_len := ex_mfg_len ex,
                      mfg := take (unat (ex_mfg_len ex)) (drop (ex_mfg ex) data)
                             @ drop (unat (ex_mfg_len ex)) (mfg d)\<rparr>
               else d)"
    and "has_mfg ex \<and> unat (ex_mfg_len ex) \<le> MAX_BLE_DATA \<longrightarrow>
           ex_mfg ex + unat (ex_mfg_len ex) \<le> length data"
  using assms
  by (auto simp: store_mfg_def memcpy_def split: if_splits option.splits)

lemma store_svc_Some:
  assumes "store_svc data ex d = Some d2"
  shows "d2 = (if has_svc ex \<and> unat (ex_svc_len ex) \<le> MAX_BLE_DATA
               then d\<lparr>have_svc := True, svc_len := ex_svc_len ex,
                      svc := take (unat (ex_svc_len ex)) (drop (ex_svc ex) data)
                             @ drop (unat (ex_svc_len ex)) (svc d)\<rparr>
               else d)"
    and "has_svc ex \<and> unat (ex_svc_len ex) \<le> MAX_BLE_DATA \<longrightarrow>
           ex_svc ex + unat (ex_svc_len ex) \<le> length data"
  using assms
  by (auto simp: store_svc_def memcpy_def split: if_splits option.splits)

lemma store_mfg_total:
  assumes "slices_within (length data) ex" and "length (mfg d) = MAX_BLE_DATA"
  shows "\<exists>d2. store_mfg data ex d = Some d2"
  using assms by (auto simp: store_mfg_def memcpy_def slices_within_def)

lemma store_svc_total:
  assumes "slices_within (length data) ex" and "length (svc d) = MAX_BLE_DATA"
  shows "\<exists>d2. store_svc data ex d = Some d2"
  using assms by (auto simp: store_svc_def memcpy_def slices_within_def)

text \<open>The record that the callback leaves in the slot before \<^verbatim>\<open>maybe_mark_latest\<close>.\<close>

lemma disc_update_Some:
  assumes "disc_update s idx desc ex = Some (s', fx)" and "idx < length (g_devices s)"
  obtains d2 d3 where
    "store_mfg (disc_data desc) ex ((g_devices s ! idx)\<lparr>rssi := disc_rssi desc\<rparr>) = Some d2"
    and "store_svc (disc_data desc) ex d2 = Some d3"
    and "g_devices s' = (g_devices s)[idx := (if merged d3 then update_device_id d3 else d3)]"
    and "g_latest_index s' = (if merged d3 then int idx else g_latest_index s)"
    and "g_ble_started s' = g_ble_started s"
    and "fx = (if \<not> merged (g_devices s ! idx) \<and> merged d3 then [LOG_MERGED] else [])"
  using assms
  by (auto simp: disc_update_def maybe_mark_latest_def Let_def
      split: option.splits if_splits)

subsection \<open>The discovery callback, case by case\<close>

lemma carries_field_iff:
  "adv_extract (disc_data desc) (disc_length_data desc) = Some ex \<Longrightarrow>
     carries_field desc = (has_mfg ex \<or> has_svc ex)"
  by (simp add: carries_field_def)

lemma gap_event_cb_DISC_Some:
  assumes cb: "gap_event_cb s (BLE_GAP_EVENT_DISC desc) = Some (s', fx)"
    and len: "length (g_devices s) = MAX_DEVICES"
  obtains (ignored) "s' = s" and "fx = []"
      and "\<not> carries_field desc \<or>
           (find_loop (g_devices s) (disc_addr desc) 0 = None \<and>
            alloc_loop (g_devices s) 0 = None)"
  | (stored) ex j d0 d2 d3 where
      "adv_extract (disc_data desc) (disc_length_data desc) = Some ex"
      and "has_mfg ex \<or> has_svc ex" and "j < MAX_DEVICES"
      and "(find_loop (g_devices s) (disc_addr desc) 0 = Some j \<and> d0 = g_devices s ! j) \<or>
           (find_loop (g_devices s) (disc_addr desc) 0 = None \<and>
            alloc_loop (g_devices s) 0 = Some j \<and> \<not> in_use (g_devices s ! j) \<and>
            d0 = zero_device\<lparr>in_use := True, addr := take 6 (disc_addr desc)\<rparr>)"
      and "in_use d0"
      and "store_mfg (disc_data desc) ex (d0\<lparr>rssi := disc_rssi desc\<rparr>) = Some d2"
      and "store_svc (disc_data desc) ex d2 = Some d3"
      and "g_devices s' = (g_devices s)[j := (if merged d3 then update_device_id d3 else d3)]"
      and "g_latest_index s' = (if merged d3 then int j else g_latest_index s)"
      and "g_ble_started s' = g_ble_started s"
      and "fx = (if \<not> merged d0 \<and> merged d3 then [LOG_MERGED] else [])"
proof -
  from cb obtain ex where ex: "adv_extract (disc_data desc) (disc_length_data desc) = Some ex"
    by (auto simp: gap_event_cb_def split: option.splits)
  note cf = carries_field_iff [OF ex]
  show thesis
  proof (cases "has_mfg ex \<or> has_svc ex")
    case False
    with cb ex have "s' = s" "fx = []" by (auto simp: gap_event_cb_def)
    with False cf ignored show thesis by simp
  next
    case fld: True
    show thesis
    proof (cases rule: cache_find_or_alloc_cases [of s "disc_addr desc"])
      case dropped
      with cb ex fld have "s' = s" "fx = []" by (auto simp: gap_event_cb_def)
      with dropped ignored show thesis by simp
    next
      case (found j)
      from find_loop_Some [OF found(1)] have j: "j < MAX_DEVICES" "in_use (g_devices s ! j)"
        by auto
      from cb ex fld found(2) have du: "disc_update s j desc ex = Some (s', fx)"
        by (auto simp: gap_event_cb_def)
      from j len have "j < length (g_devices s)" by simp
      from disc_update_Some [OF du this]
      obtain d2 d3 where
        "store_mfg (disc_data desc) ex ((g_devices s ! j)\<lparr>rssi := disc_rssi desc\<rparr>) = Some d2"
        and "store_svc (disc_data desc) ex d2 = Some d3"
        and "g_devices s' = (g_devices s)[j := (if merged d3 then update_device_id d3 else d3)]"
        and "g_latest_index s' = (if merged d3 then int j else g_latest_index s)"
        and "g_ble_started s' = g_ble_started s"
        and "fx = (if \<not> merged (g_devices s ! j) \<and> merged d3 then [LOG_MERGED] else [])"
        by blast
      then show thesis
        using stored [of ex j "g_devices s ! j" d2 d3] ex fld j found(1) by blast
    next
      case (fresh j)
      let ?d0 = "zero_device\<lparr>in_use := True, addr := take 6 (disc_addr desc)\<rparr>"
      let ?s1 = "s\<lparr>g_devices := (g_devices s)[j := ?d0]\<rparr>"
      from alloc_loop_Some [OF fresh(2)] have j: "j < MAX_DEVICES" "\<not> in_use (g_devices s ! j)"
        by auto
      from cb ex fld fresh(3) have du: "disc_update ?s1 j desc ex = Some (s', fx)"
        by (auto simp: gap_event_cb_def)
      from j len have jl: "j < length (g_devices ?s1)" by simp
      from disc_update_Some [OF du jl]
      obtain d2 d3 where
        "store_mfg (disc_data desc) ex ((g_devices ?s1 ! j)\<lparr>rssi := disc_rssi desc\<rparr>) = Some d2"
        and "store_svc (disc_data desc) ex d2 = Some d3"
        and "g_devices s' = (g_devices ?s1)[j := (if merged d3 then update_device_id d3 else d3)]"
        and "g_latest_index s' = (if merged d3 then int j else g_latest_index ?s1)"
        and "g_ble_started s' = g_ble_started ?s1"
        and "fx = (if \<not> merged (g_devices ?s1 ! j) \<and> merged d3 then [LOG_MERGED] else [])"
        by blast
      with jl have
        "store_mfg (disc_data desc) ex (?d0\<lparr>rssi := disc_rssi desc\<rparr>) = Some d2"
        "store_svc (disc_data desc) ex d2 = Some d3"
        "g_devices s' = (g_devices s)[j := (if merged d3 then update_device_id d3 else d3)]"
        "g_latest_index s' = (if merged d3 then int j else g_latest_index s)"
        "g_ble_started s' = g_ble_started s"
        "fx = (if \<not> merged ?d0 \<and> merged d3 then [LOG_MERGED] else [])"
        by simp_all
      moreover have "in_use ?d0" by simp
      ultimately show thesis
        using stored [of ex j ?d0 d2 d3] ex fld j fresh(1,2) by blast
    qed
  qed
qed

lemma disc_update_total:
  assumes "idx < length (g_devices s)" and "wf_device (g_devices s ! idx)"
    and "slices_within (length (disc_data desc)) ex"
  shows "\<exists>s' fx. disc_update s idx desc ex = Some (s', fx)"
proof -
  let ?d1 = "(g_devices s ! idx)\<lparr>rssi := disc_rssi desc\<rparr>"
  have "length (mfg ?d1) = MAX_BLE_DATA" using assms(2) by (simp add: wf_device_def)
  from store_mfg_total [OF assms(3) this]
  obtain d2 where d2: "store_mfg (disc_data desc) ex ?d1 = Some d2" by blast
  have "svc d2 = svc ?d1" using store_mfg_Some(1) [OF d2] by (simp split: if_splits)
  then have "length (svc d2) = MAX_BLE_DATA" using assms(2) by (simp add: wf_device_def)
  from store_svc_total [OF assms(3) this]
  obtain d3 where d3: "store_svc (disc_data desc) ex d2 = Some d3" by blast
  show ?thesis
    using d2 d3 by (simp add: disc_update_def Let_def split: prod.splits)
qed

lemma wf_zero_device: "wf_device (zero_device\<lparr>in_use := True, addr := a\<rparr>)"
  by (simp add: wf_device_def zero_device_def)

lemma wf_state_nth: "wf_state s \<Longrightarrow> j < MAX_DEVICES \<Longrightarrow> wf_device (g_devices s ! j)"
  by (simp add: wf_state_def list_all_length)

text \<open>A descriptor whose buffer holds its declared bytes is always processed.\<close>

lemma gap_event_cb_total:
  assumes wf: "wf_state s" and d: "wf_desc desc"
  shows "\<exists>s' fx. gap_event_cb s (BLE_GAP_EVENT_DISC desc) = Some (s', fx)"
proof -
  from d have "unat (disc_length_data desc) \<le> length (disc_data desc)"
    by (simp add: wf_desc_def)
  from adv_extract_fields [OF this] this
  obtain ex where ex: "adv_extract (disc_data desc) (disc_length_data desc) = Some ex"
    and sw: "slices_within (length (disc_data desc)) ex"
    by (auto simp: slices_within_def)
  from wf have len: "length (g_devices s) = MAX_DEVICES" by (simp add: wf_state_def)
  show ?thesis
  proof (cases rule: cache_find_or_alloc_cases [of s "disc_addr desc"])
    case dropped
    then show ?thesis using ex by (simp add: gap_event_cb_def)
  next
    case (found j)
    from find_loop_Some [OF found(1)] have j: "j < MAX_DEVICES" by simp
    from disc_update_total [of j s desc ex] j len wf_state_nth [OF wf j] sw
    obtain s' fx where "disc_update s j desc ex = Some (s', fx)" by auto
    then show ?thesis using ex found(2) by (simp add: gap_event_cb_def)
  next
    case (fresh j)
    let ?s1 = "s\<lparr>g_devices :=
        (g_devices s)[j := zero_device\<lparr>in_use := True, addr := take 6 (disc_addr desc)\<rparr>]\<rparr>"
    from alloc_loop_Some [OF fresh(2)] have j: "j < MAX_DEVICES" by simp
    from disc_update_total [of j ?s1 desc ex] j len wf_zero_device sw
    obtain s' fx where "disc_update ?s1 j desc ex = Some (s', fx)" by auto
    then show ?thesis using ex fresh(3) by (simp add: gap_event_cb_def)
  qed
qed

subsection \<open>The port calls\<close>

lemmas opcode_defs =
  OPCODE_PING_def OPCODE_ECHO_def OPCODE_BLE_START_def OPCODE_BLE_STOP_def
  OPCODE_LATEST_def OPCODE_LATEST_FOR_def

lemma reply_latest_ok: "\<exists>payload. reply_latest d = 0x00 # payload"
  by (simp add: reply_latest_def)

lemma call_ble_start_envelope:
  "fst (call_ble_start s nvs1 nvs2) = [0x00, 0x01] \<or>
   fst (call_ble_start s nvs1 nvs2) = [0x01, 0x30]"
  by (simp add: call_ble_start_def Let_def make_ok_with_payload_eq make_error_def)

lemma call_latest_for_envelope:
  "(\<exists>payload. fst (call_latest_for s data) = 0x00 # payload) \<or>
   (\<exists>code. fst (call_latest_for s data) = [0x01, code])"
  by (auto simp: call_latest_for_def Let_def make_error_def reply_latest_def
      split: prod.splits)

lemma call_latest_envelope:
  "(\<exists>payload. fst (call_latest s) = 0x00 # payload) \<or>
   (\<exists>code. fst (call_latest s) = [0x01, code])"
  by (auto simp: call_latest_def Let_def make_error_def reply_latest_def)

lemma handle_call_envelope:
  "(\<exists>payload. fst (handle_call s nvs1 nvs2 req) = 0x00 # payload) \<or>
   (\<exists>code. fst (handle_call s nvs1 nvs2 req) = [0x01, code])"
proof (cases req)
  case NotBinary
  then show ?thesis by (simp add: handle_call_def make_error_def)
next
  case (Binary data)
  show ?thesis
  proof (cases "length data < 1")
    case True
    with Binary show ?thesis by (simp add: handle_call_def make_error_def)
  next
    case False
    consider "data ! 0 = OPCODE_PING" | "data ! 0 = OPCODE_ECHO" | "data ! 0 = OPCODE_BLE_START"
      | "data ! 0 = OPCODE_BLE_STOP" | "data ! 0 = OPCODE_LATEST" | "data ! 0 = OPCODE_LATEST_FOR"
      | "data ! 0 \<notin> {OPCODE_PING, OPCODE_ECHO, OPCODE_BLE_START, OPCODE_BLE_STOP,
            OPCODE_LATEST, OPCODE_LATEST_FOR}"
      by blast
    then show ?thesis
    proof cases
      case 1
      with Binary False show ?thesis
        by (simp add: handle_call_def make_ok_with_payload_eq)
    next
      case 2
      with Binary False show ?thesis
        by (simp add: handle_call_def make_ok_with_payload_eq opcode_defs)
    next
      case 3
      with Binary False call_ble_start_envelope [of s nvs1 nvs2] show ?thesis
        by (auto simp: handle_call_def opcode_defs)
    next
      case 4
      with Binary False show ?thesis
        by (simp add: handle_call_def opcode_defs call_ble_stop_def make_error_def
            make_ok_with_payload_eq)
    next
      case 5
      with Binary False call_latest_envelope [of s] show ?thesis
        by (simp add: handle_call_def opcode_defs)
    next
      case 6
      with Binary False call_latest_for_envelope [of s data] show ?thesis
        by (simp add: handle_call_def opcode_defs)
    next
      case 7
      with Binary False show ?thesis
        by (simp add: handle_call_def make_error_def)
    qed
  qed
qed

text \<open>The scan of \<^verbatim>\<open>OPCODE_LATEST_FOR\<close> finds nothing when no slot matches.\<close>

lemma latest_for_loop_none:
  assumes "\<And>k. i \<le> k \<Longrightarrow> k < MAX_DEVICES \<Longrightarrow>
             \<not> (in_use (ds ! k) \<and> merged (ds ! k) \<and> have_device_id (update_device_id (ds ! k))
                \<and> device_id (update_device_id (ds ! k)) = wanted)"
    and "MAX_DEVICES \<le> length ds"
  shows "fst (latest_for_loop ds wanted i) = - 1"
  using assms
proof (induction ds wanted i rule: latest_for_loop.induct)
  case (1 ds wanted i)
  show ?case
  proof (cases "i < MAX_DEVICES")
    case False
    then show ?thesis by (simp add: latest_for_loop.simps [of ds wanted i])
  next
    case True
    note here = "1.prems"(1) [of i, simplified, OF True]
    have later: "\<not> (in_use (ds ! k) \<and> merged (ds ! k) \<and> have_device_id (update_device_id (ds ! k))
                \<and> device_id (update_device_id (ds ! k)) = wanted)"
      if "i + 1 \<le> k" "k < MAX_DEVICES" for k
      using "1.prems"(1) [of k] that by simp
    have il: "i < length ds" using True "1.prems"(2) by simp
    show ?thesis
    proof (cases "in_use (ds ! i) \<and> merged (ds ! i)")
      case False
      then consider "\<not> in_use (ds ! i)"
        | "in_use (ds ! i)" "\<not> have_mfg (ds ! i) \<or> \<not> have_svc (ds ! i)"
        | "in_use (ds ! i)" "have_mfg (ds ! i)" "have_svc (ds ! i)"
          "\<not> is_switchbot_mfg (mfg (ds ! i)) (mfg_len (ds ! i))"
        by (auto simp: merged_def)
      then show ?thesis
      proof cases
        case 1
        with "1.IH"(1) [OF True 1 later "1.prems"(2)] True show ?thesis
          by (simp add: latest_for_loop.simps [of ds wanted i])
      next
        case 2
        with "1.IH"(2) [OF True _ 2(2) later "1.prems"(2)] True show ?thesis
          by (simp add: latest_for_loop.simps [of ds wanted i])
      next
        case 3
        with "1.IH"(3) [OF True _ _ _ later "1.prems"(2)] True show ?thesis
          by (simp add: latest_for_loop.simps [of ds wanted i])
      qed
    next
      case m: True
      let ?ds' = "ds[i := update_device_id (ds ! i)]"
      from m have c: "in_use (ds ! i)" "have_mfg (ds ! i)" "have_svc (ds ! i)"
        "is_switchbot_mfg (mfg (ds ! i)) (mfg_len (ds ! i))"
        by (auto simp: merged_def)
      from here m il have nm: "\<not> (have_device_id (?ds' ! i) \<and> device_id (?ds' ! i) = wanted)"
        by simp
      have later': "\<not> (in_use (?ds' ! k) \<and> merged (?ds' ! k)
                \<and> have_device_id (update_device_id (?ds' ! k))
                \<and> device_id (update_device_id (?ds' ! k)) = wanted)"
        if "i + 1 \<le> k" "k < MAX_DEVICES" for k
        using later [OF that] that by simp
      have "fst (latest_for_loop ?ds' wanted (i + 1)) = - 1"
        using "1.IH"(4) [OF True _ _ _ refl nm later'] c "1.prems"(2) by simp
      with True c nm show ?thesis
        by (simp add: latest_for_loop.simps [of ds wanted i] Let_def)
    qed
  qed
qed

text \<open>
  C9. An \<^verbatim>\<open>ECHO\<close> request (first byte \<^verbatim>\<open>0x02\<close>) is answered by the success byte and the
  rest of the request, unchanged, in every state; the state stays as it was. So the
  body \<^verbatim>\<open>DE AD BE EF\<close> comes back as it is, and an empty body gives an empty payload.
\<close>

theorem handle_call_echo:
  "handle_call s nvs1 nvs2 (Binary (OPCODE_ECHO # body)) = (0x00 # body, s, [])
   \<and> OPCODE_ECHO = 0x02
   \<and> fst (handle_call s nvs1 nvs2 (Binary [0x02, 0xDE, 0xAD, 0xBE, 0xEF]))
       = [0x00, 0xDE, 0xAD, 0xBE, 0xEF]
   \<and> fst (handle_call s nvs1 nvs2 (Binary [0x02])) = [0x00]"
  by (simp add: handle_call_def make_ok_with_payload_eq opcode_defs)

theorem handle_call_echo_witness:
  "handle_call init_state ESP_OK ESP_OK (Binary [0x02, 0xDE, 0xAD, 0xBE, 0xEF])
     = ([0x00, 0xDE, 0xAD, 0xBE, 0xEF], init_state, [])"
  using handle_call_echo [of init_state ESP_OK ESP_OK "[0xDE, 0xAD, 0xBE, 0xEF]"]
  by (simp add: OPCODE_ECHO_def)

text \<open>
  C7, as the code has it. Every reply is the success byte \<^verbatim>\<open>0x00\<close> and a payload, or the
  error byte \<^verbatim>\<open>0x01\<close> and one code byte. A first byte that is no opcode gives code
  \<^verbatim>\<open>0x12\<close>. Before the radio is started \<^verbatim>\<open>RADIO_STOP\<close> gives code \<^verbatim>\<open>0x32\<close>, while \<^verbatim>\<open>LATEST\<close>
  and \<^verbatim>\<open>LATEST_FOR\<close> give code \<^verbatim>\<open>0x40\<close>. Once it is started, \<^verbatim>\<open>LATEST\<close> without a completed
  reading gives \<^verbatim>\<open>0x41\<close>, \<^verbatim>\<open>LATEST_FOR\<close> with a body of fewer than two bytes gives \<^verbatim>\<open>0x42\<close>,
  and \<^verbatim>\<open>LATEST_FOR\<close> with no matching record gives \<^verbatim>\<open>0x43\<close>.
\<close>

theorem handle_call_replies:
  "((\<exists>payload. fst (handle_call s nvs1 nvs2 req) = 0x00 # payload) \<or>
    (\<exists>code. fst (handle_call s nvs1 nvs2 req) = [0x01, code]))
   \<and> (opcode \<notin> {OPCODE_PING, OPCODE_ECHO, OPCODE_BLE_START, OPCODE_BLE_STOP,
                  OPCODE_LATEST, OPCODE_LATEST_FOR}
        \<longrightarrow> fst (handle_call s nvs1 nvs2 (Binary (opcode # body))) = [0x01, 0x12])
   \<and> (\<not> g_ble_started s
        \<longrightarrow> fst (handle_call s nvs1 nvs2 (Binary (OPCODE_BLE_STOP # body))) = [0x01, 0x32]
          \<and> fst (handle_call s nvs1 nvs2 (Binary (OPCODE_LATEST # body))) = [0x01, 0x40]
          \<and> fst (handle_call s nvs1 nvs2 (Binary (OPCODE_LATEST_FOR # body))) = [0x01, 0x40])
   \<and> (g_ble_started s \<and> g_latest_index s < 0
        \<longrightarrow> fst (handle_call s nvs1 nvs2 (Binary (OPCODE_LATEST # body))) = [0x01, 0x41])
   \<and> (g_ble_started s \<and> length body < 2
        \<longrightarrow> fst (handle_call s nvs1 nvs2 (Binary (OPCODE_LATEST_FOR # body))) = [0x01, 0x42])
   \<and> (g_ble_started s \<and> 2 \<le> length body \<and> MAX_DEVICES \<le> length (g_devices s)
       \<and> (\<forall>k < MAX_DEVICES.
             \<not> (in_use (g_devices s ! k) \<and> merged (g_devices s ! k)
                \<and> have_device_id (update_device_id (g_devices s ! k))
                \<and> device_id (update_device_id (g_devices s ! k))
                    = push_bit 8 (ucast (body ! 0)) OR ucast (body ! 1)))
        \<longrightarrow> fst (handle_call s nvs1 nvs2 (Binary (OPCODE_LATEST_FOR # body))) = [0x01, 0x43])"
proof -
  have unknown: "fst (handle_call s nvs1 nvs2 (Binary (opcode # body))) = [0x01, 0x12]"
    if "opcode \<notin> {OPCODE_PING, OPCODE_ECHO, OPCODE_BLE_START, OPCODE_BLE_STOP,
                  OPCODE_LATEST, OPCODE_LATEST_FOR}"
    using that by (simp add: handle_call_def make_error_def)
  have early: "fst (handle_call s nvs1 nvs2 (Binary (OPCODE_BLE_STOP # body))) = [0x01, 0x32]
          \<and> fst (handle_call s nvs1 nvs2 (Binary (OPCODE_LATEST # body))) = [0x01, 0x40]
          \<and> fst (handle_call s nvs1 nvs2 (Binary (OPCODE_LATEST_FOR # body))) = [0x01, 0x40]"
    if "\<not> g_ble_started s"
    using that
    by (simp add: handle_call_def opcode_defs call_ble_stop_def call_latest_def
        call_latest_for_def make_error_def)
  have nodata: "fst (handle_call s nvs1 nvs2 (Binary (OPCODE_LATEST # body))) = [0x01, 0x41]"
    if "g_ble_started s \<and> g_latest_index s < 0"
    using that by (simp add: handle_call_def opcode_defs call_latest_def make_error_def)
  have short: "fst (handle_call s nvs1 nvs2 (Binary (OPCODE_LATEST_FOR # body))) = [0x01, 0x42]"
    if "g_ble_started s \<and> length body < 2"
    using that by (simp add: handle_call_def opcode_defs call_latest_for_def make_error_def)
  have nomatch: "fst (handle_call s nvs1 nvs2 (Binary (OPCODE_LATEST_FOR # body))) = [0x01, 0x43]"
    if h: "g_ble_started s \<and> 2 \<le> length body \<and> MAX_DEVICES \<le> length (g_devices s)
       \<and> (\<forall>k < MAX_DEVICES.
             \<not> (in_use (g_devices s ! k) \<and> merged (g_devices s ! k)
                \<and> have_device_id (update_device_id (g_devices s ! k))
                \<and> device_id (update_device_id (g_devices s ! k))
                    = push_bit 8 (ucast (body ! 0)) OR ucast (body ! 1)))"
  proof -
    let ?w = "push_bit 8 (ucast (body ! 0)) OR ucast (body ! 1) :: u16"
    have "fst (latest_for_loop (g_devices s) ?w 0) = - 1"
      using h by (intro latest_for_loop_none) auto
    moreover have "(push_bit 8 (ucast ((OPCODE_LATEST_FOR # body) ! 1))
                     OR ucast ((OPCODE_LATEST_FOR # body) ! 2) :: u16) = ?w"
      using h by (simp add: eval_nat_numeral)
    ultimately show ?thesis using h
      by (auto simp add: handle_call_def opcode_defs call_latest_for_def make_error_def Let_def
          split: prod.splits)
  qed
  from handle_call_envelope [of s nvs1 nvs2 req] unknown early nodata short nomatch
  show ?thesis by blast
qed

theorem handle_call_replies_witness:
  "fst (handle_call (init_state\<lparr>g_ble_started := True\<rparr>) ESP_OK ESP_OK (Binary [0x77, 0x12, 0x34]))
     = [0x01, 0x12]
   \<and> fst (handle_call (init_state\<lparr>g_ble_started := True\<rparr>) ESP_OK ESP_OK
         (Binary [OPCODE_LATEST, 0x12, 0x34])) = [0x01, 0x41]
   \<and> fst (handle_call (init_state\<lparr>g_ble_started := True\<rparr>) ESP_OK ESP_OK
         (Binary [OPCODE_LATEST_FOR, 0x12, 0x34])) = [0x01, 0x43]"
proof -
  let ?s = "init_state\<lparr>g_ble_started := True\<rparr>"
  have op: "(0x77 :: u8) \<notin> {OPCODE_PING, OPCODE_ECHO, OPCODE_BLE_START, OPCODE_BLE_STOP,
                  OPCODE_LATEST, OPCODE_LATEST_FOR}"
    by (simp add: opcode_defs)
  have st: "g_ble_started ?s \<and> g_latest_index ?s < 0"
    by (simp add: init_state_def)
  have nm: "g_ble_started ?s \<and> 2 \<le> length [0x12, 0x34 :: u8]
       \<and> MAX_DEVICES \<le> length (g_devices ?s)
       \<and> (\<forall>k < MAX_DEVICES.
             \<not> (in_use (g_devices ?s ! k) \<and> merged (g_devices ?s ! k)
                \<and> have_device_id (update_device_id (g_devices ?s ! k))
                \<and> device_id (update_device_id (g_devices ?s ! k))
                    = push_bit 8 (ucast ([0x12, 0x34 :: u8] ! 0)) OR ucast ([0x12, 0x34 :: u8] ! 1)))"
    by (simp add: init_state_def zero_device_def)
  from handle_call_replies [of ?s ESP_OK ESP_OK NotBinary "0x77" "[0x12, 0x34]"] op st nm
  show ?thesis by blast
qed

theorem not_started_codes_differ:
  "fst (handle_call init_state ESP_OK ESP_OK (Binary [OPCODE_BLE_STOP])) = [0x01, 0x32]
   \<and> fst (handle_call init_state ESP_OK ESP_OK (Binary [OPCODE_LATEST])) = [0x01, 0x40]
   \<and> fst (handle_call init_state ESP_OK ESP_OK (Binary [OPCODE_BLE_STOP]))
       \<noteq> fst (handle_call init_state ESP_OK ESP_OK (Binary [OPCODE_LATEST]))"
  by (simp add: handle_call_def opcode_defs call_ble_stop_def call_latest_def make_error_def
      init_state_def)

subsection \<open>The started flag\<close>

lemma cache_find_or_alloc_started:
  "g_ble_started (snd (cache_find_or_alloc s a)) = g_ble_started s"
  by (cases rule: cache_find_or_alloc_cases [of s a]) simp_all

lemma disc_update_started:
  "disc_update s idx desc ex = Some (s', fx) \<Longrightarrow> g_ble_started s' = g_ble_started s"
  by (auto simp: disc_update_def maybe_mark_latest_def Let_def
      split: option.splits if_splits)

lemma gap_event_cb_started:
  assumes "gap_event_cb s ev = Some (s', fx)"
  shows "g_ble_started s' = g_ble_started s"
proof (cases ev)
  case (BLE_GAP_EVENT_DISC desc)
  with assms obtain ex where ex: "adv_extract (disc_data desc) (disc_length_data desc) = Some ex"
    by (auto simp: gap_event_cb_def split: option.splits)
  obtain idx s1 where c: "cache_find_or_alloc s (disc_addr desc) = (idx, s1)"
    by (cases "cache_find_or_alloc s (disc_addr desc)")
  then have s1: "g_ble_started s1 = g_ble_started s"
    using cache_find_or_alloc_started [of s "disc_addr desc"] by simp
  from assms BLE_GAP_EVENT_DISC ex c s1 show ?thesis
    by (auto simp: gap_event_cb_def split: if_splits dest: disc_update_started)
qed (use assms in \<open>auto simp: gap_event_cb_def\<close>)

lemma handle_call_started:
  "g_ble_started s \<Longrightarrow> g_ble_started (fst (snd (handle_call s nvs1 nvs2 req)))"
  by (auto simp: handle_call_def call_ble_start_def call_ble_stop_def call_latest_def
      call_latest_for_def Let_def split: erl_term.splits prod.splits)

lemma step_started: "g_ble_started s \<Longrightarrow> step s a = Some s' \<Longrightarrow> g_ble_started s'"
  by (cases a) (auto simp: step_def handle_call_started dest: gap_event_cb_started)

lemma run_started: "g_ble_started s \<Longrightarrow> run s acts = Some s' \<Longrightarrow> g_ble_started s'"
proof (induction acts arbitrary: s)
  case Nil
  then show ?case by simp
next
  case (Cons a acts)
  then show ?case by (auto split: option.splits dest: step_started)
qed

lemma start_success_started:
  assumes "handle_call s0 nvs1 nvs2 (Binary (OPCODE_BLE_START # body0)) = (0x00 # payload, s1, fx0)"
  shows "g_ble_started s1"
  using assms
  by (auto simp: handle_call_def opcode_defs call_ble_start_def Let_def make_error_def
      split: if_splits)

text \<open>
  C10. Once a \<^verbatim>\<open>RADIO_START\<close> request has been answered with success, the started flag
  holds after every further run of events and requests. \<^verbatim>\<open>RADIO_STOP\<close> then answers
  success, asks the radio stack to cancel discovery and leaves the state, the flag
  included, as it was; \<^verbatim>\<open>LATEST\<close> and \<^verbatim>\<open>LATEST_FOR\<close> never answer with a not-started
  code (\<^verbatim>\<open>0x32\<close> or \<^verbatim>\<open>0x40\<close>).
\<close>

theorem started_flag_monotone:
  assumes "handle_call s0 nvs1 nvs2 (Binary (OPCODE_BLE_START # body0))
             = (0x00 # payload, s1, fx0)"
    and "run s1 acts = Some s"
  shows "g_ble_started s
         \<and> handle_call s m1 m2 (Binary (OPCODE_BLE_STOP # body))
             = ([0x00, 0x01], s, [GAP_DISC_CANCEL])
         \<and> fst (handle_call s m1 m2 (Binary (OPCODE_LATEST # body)))
             \<notin> {[0x01, 0x32], [0x01, 0x40]}
         \<and> fst (handle_call s m1 m2 (Binary (OPCODE_LATEST_FOR # body)))
             \<notin> {[0x01, 0x32], [0x01, 0x40]}"
proof -
  from start_success_started [OF assms(1)] assms(2) have st: "g_ble_started s"
    by (rule run_started)
  have stop: "handle_call s m1 m2 (Binary (OPCODE_BLE_STOP # body))
             = ([0x00, 0x01], s, [GAP_DISC_CANCEL])"
    using st by (simp add: handle_call_def opcode_defs call_ble_stop_def make_ok_with_payload_eq)
  have latest: "fst (handle_call s m1 m2 (Binary (OPCODE_LATEST # body)))
             \<notin> {[0x01, 0x32], [0x01, 0x40]}"
    using st
    by (simp add: handle_call_def opcode_defs call_latest_def make_error_def Let_def
        reply_latest_def)
  have latest_for: "fst (handle_call s m1 m2 (Binary (OPCODE_LATEST_FOR # body)))
             \<notin> {[0x01, 0x32], [0x01, 0x40]}"
    using st
    by (simp add: handle_call_def opcode_defs call_latest_for_def make_error_def Let_def
        reply_latest_def split: prod.splits)
  from st stop latest latest_for show ?thesis by simp
qed


theorem started_flag_monotone_witness:
  "handle_call init_state ESP_OK ESP_OK (Binary [OPCODE_BLE_START])
     = ([0x00, 0x01], started_state,
        [NVS_FLASH_INIT, NIMBLE_PORT_INIT, MUTEX_CREATE, NIMBLE_HOST_TASK])
   \<and> (\<exists>s. run started_state
              [Call ESP_OK ESP_OK (Binary [OPCODE_BLE_STOP]), Event (disc addr_A 0xC4 adv_full)]
            = Some s
          \<and> g_ble_started s
          \<and> handle_call s ESP_OK ESP_OK (Binary [OPCODE_BLE_STOP])
              = ([0x00, 0x01], s, [GAP_DISC_CANCEL]))"
proof -
  have start: "handle_call init_state ESP_OK ESP_OK (Binary (OPCODE_BLE_START # []))
     = (0x00 # [0x01], started_state,
        [NVS_FLASH_INIT, NIMBLE_PORT_INIT, MUTEX_CREATE, NIMBLE_HOST_TASK])"
    by (simp add: handle_call_def opcode_defs call_ble_start_def
      init_state_def started_state_def Let_def make_ok_with_payload_eq)
  have "run started_state
          [Call ESP_OK ESP_OK (Binary [OPCODE_BLE_STOP]), Event (disc addr_A 0xC4 adv_full)]
        \<noteq> None"
    by code_simp
  then obtain s where r: "run started_state
          [Call ESP_OK ESP_OK (Binary [OPCODE_BLE_STOP]), Event (disc addr_A 0xC4 adv_full)]
        = Some s"
    by blast
  from started_flag_monotone [OF start r, of ESP_OK ESP_OK "[]"] start r
  show ?thesis by auto
qed

subsection \<open>More on the slot search\<close>

lemma find_loop_first:
  assumes "i \<le> j" and "j < MAX_DEVICES"
    and "in_use (ds ! j)" and "memcmp6 (addr (ds ! j)) a"
    and "\<And>k. i \<le> k \<Longrightarrow> k < j \<Longrightarrow> \<not> (in_use (ds ! k) \<and> memcmp6 (addr (ds ! k)) a)"
  shows "find_loop ds a i = Some j"
  using assms
proof (induction ds a i rule: find_loop.induct)
  case (1 ds a i)
  show ?case
  proof (cases "i = j")
    case True
    with "1.prems" show ?thesis by (subst find_loop.simps) simp
  next
    case False
    with "1.prems" have lt: "i < j" by simp
    with "1.prems" have no: "\<not> (in_use (ds ! i) \<and> memcmp6 (addr (ds ! i)) a)" by simp
    from lt "1.prems" have im: "i < MAX_DEVICES" by simp
    have "find_loop ds a (i + 1) = Some j"
      using "1.IH" [OF im no] lt "1.prems" by simp
    with im no show ?thesis by (auto simp add: find_loop.simps [of ds a i])
  qed
qed

lemma find_loop_same_keys:
  assumes "\<And>k. k < MAX_DEVICES \<Longrightarrow>
             in_use (ds' ! k) = in_use (ds ! k) \<and> addr (ds' ! k) = addr (ds ! k)"
  shows "find_loop ds' a i = find_loop ds a i"
  using assms
proof (induction ds a i rule: find_loop.induct)
  case (1 ds a i)
  show ?case
  proof (cases "i < MAX_DEVICES")
    case True
    then show ?thesis
      using "1.IH" "1.prems"
      by (simp add: find_loop.simps [of ds a i] find_loop.simps [of ds' a i])
  next
    case False
    then show ?thesis
      by (simp add: find_loop.simps [of ds a i] find_loop.simps [of ds' a i])
  qed
qed

lemma memcmp6_take [simp]: "memcmp6 (take 6 a) a"
  by (simp add: memcmp6_def)

subsection \<open>What storing keeps\<close>

lemma store_mfg_keeps:
  assumes "store_mfg data ex d = Some d2"
  shows "in_use d2 = in_use d" "addr d2 = addr d" "rssi d2 = rssi d"
    "have_svc d2 = have_svc d" "svc_len d2 = svc_len d" "svc d2 = svc d"
    "device_id d2 = device_id d" "have_device_id d2 = have_device_id d"
    "have_mfg d \<Longrightarrow> have_mfg d2"
  using store_mfg_Some(1) [OF assms] by (simp_all split: if_splits)

lemma store_svc_keeps:
  assumes "store_svc data ex d = Some d2"
  shows "in_use d2 = in_use d" "addr d2 = addr d" "rssi d2 = rssi d"
    "have_mfg d2 = have_mfg d" "mfg_len d2 = mfg_len d" "mfg d2 = mfg d"
    "device_id d2 = device_id d" "have_device_id d2 = have_device_id d"
    "have_svc d \<Longrightarrow> have_svc d2"
  using store_svc_Some(1) [OF assms] by (simp_all split: if_splits)

lemma store_mfg_wf:
  assumes "store_mfg data ex d = Some d2" and "wf_device d"
  shows "wf_device d2"
  using store_mfg_Some [OF assms(1)] assms(2)
  by (auto simp: wf_device_def split: if_splits)

lemma store_svc_wf:
  assumes "store_svc data ex d = Some d2" and "wf_device d"
  shows "wf_device d2"
  using store_svc_Some [OF assms(1)] assms(2)
  by (auto simp: wf_device_def split: if_splits)

lemma wf_device_rssi [simp]: "wf_device (d\<lparr>rssi := r\<rparr>) = wf_device d"
  by (simp add: wf_device_def)

lemma merged_rssi [simp]: "merged (d\<lparr>rssi := r\<rparr>) = merged d"
  by (simp add: merged_def)

subsection \<open>The scan of \<^verbatim>\<open>OPCODE_LATEST_FOR\<close>\<close>

lemma latest_for_loop_slots:
  assumes "latest_for_loop ds w i = (found, ds')"
  shows "length ds' = length ds \<and>
         (\<forall>k < length ds. ds' ! k = ds ! k \<or>
            (in_use (ds ! k) \<and> merged (ds ! k) \<and> ds' ! k = update_device_id (ds ! k)))"
  using assms
proof (induction ds w i arbitrary: found ds' rule: latest_for_loop.induct)
  case (1 ds w i)
  show ?case
  proof (cases "i < MAX_DEVICES")
    case False
    with "1.prems" show ?thesis by (simp add: latest_for_loop.simps [of ds w i])
  next
    case True
    show ?thesis
    proof (cases "in_use (ds ! i) \<and> merged (ds ! i)")
      case False
      then consider "\<not> in_use (ds ! i)"
        | "in_use (ds ! i)" "\<not> have_mfg (ds ! i) \<or> \<not> have_svc (ds ! i)"
        | "in_use (ds ! i)" "have_mfg (ds ! i)" "have_svc (ds ! i)"
          "\<not> is_switchbot_mfg (mfg (ds ! i)) (mfg_len (ds ! i))"
        by (auto simp: merged_def)
      then show ?thesis
      proof cases
        case 1
        with "1.prems" True have "latest_for_loop ds w (i + 1) = (found, ds')"
          by (simp add: latest_for_loop.simps [of ds w i])
        from "1.IH"(1) [OF True 1 this] show ?thesis .
      next
        case 2
        with "1.prems" True have "latest_for_loop ds w (i + 1) = (found, ds')"
          by (simp add: latest_for_loop.simps [of ds w i])
        from "1.IH"(2) [OF True _ 2(2) this] 2(1) show ?thesis by simp
      next
        case 3
        with "1.prems" True have "latest_for_loop ds w (i + 1) = (found, ds')"
          by (simp add: latest_for_loop.simps [of ds w i])
        from "1.IH"(3) [OF True _ _ _ this] 3 show ?thesis by simp
      qed
    next
      case m: True
      let ?ds1 = "ds[i := update_device_id (ds ! i)]"
      from m have c: "in_use (ds ! i)" "have_mfg (ds ! i)" "have_svc (ds ! i)"
        "is_switchbot_mfg (mfg (ds ! i)) (mfg_len (ds ! i))"
        by (auto simp: merged_def)
      have one: "?ds1 ! k = ds ! k \<or>
            (in_use (ds ! k) \<and> merged (ds ! k) \<and> ?ds1 ! k = update_device_id (ds ! k))"
        if "k < length ds" for k
        using that m by (cases "k = i") simp_all
      show ?thesis
      proof (cases "have_device_id (?ds1 ! i) \<and> device_id (?ds1 ! i) = w")
        case True
        with "1.prems" \<open>i < MAX_DEVICES\<close> c have "ds' = ?ds1"
          by (simp add: latest_for_loop.simps [of ds w i] Let_def)
        with one show ?thesis by simp
      next
        case False
        with "1.prems" \<open>i < MAX_DEVICES\<close> c
        have r: "latest_for_loop ?ds1 w (i + 1) = (found, ds')"
          by (simp add: latest_for_loop.simps [of ds w i] Let_def)
        from "1.IH"(4) [OF \<open>i < MAX_DEVICES\<close> _ _ _ refl False r] c
        have l: "length ds' = length ?ds1"
          and s: "\<forall>k < length ?ds1. ds' ! k = ?ds1 ! k \<or>
            (in_use (?ds1 ! k) \<and> merged (?ds1 ! k) \<and> ds' ! k = update_device_id (?ds1 ! k))"
          by simp_all
        have "ds' ! k = ds ! k \<or>
            (in_use (ds ! k) \<and> merged (ds ! k) \<and> ds' ! k = update_device_id (ds ! k))"
          if k: "k < length ds" for k
        proof (cases "k = i")
          case True
          with s k m show ?thesis by auto
        next
          case False
          with s k show ?thesis by auto
        qed
        with l show ?thesis by simp
      qed
    qed
  qed
qed

lemma latest_for_loop_found:
  assumes "latest_for_loop ds w i = (found, ds')" and "MAX_DEVICES \<le> length ds"
  shows "found = - 1 \<or>
         (\<exists>j. found = int j \<and> j < MAX_DEVICES \<and> in_use (ds' ! j) \<and> merged (ds' ! j)
              \<and> have_device_id (ds' ! j) \<and> device_id (ds' ! j) = w)"
  using assms
proof (induction ds w i arbitrary: found ds' rule: latest_for_loop.induct)
  case (1 ds w i)
  show ?case
  proof (cases "i < MAX_DEVICES")
    case False
    with "1.prems" show ?thesis by (simp add: latest_for_loop.simps [of ds w i])
  next
    case True
    show ?thesis
    proof (cases "in_use (ds ! i) \<and> merged (ds ! i)")
      case False
      then consider "\<not> in_use (ds ! i)"
        | "in_use (ds ! i)" "\<not> have_mfg (ds ! i) \<or> \<not> have_svc (ds ! i)"
        | "in_use (ds ! i)" "have_mfg (ds ! i)" "have_svc (ds ! i)"
          "\<not> is_switchbot_mfg (mfg (ds ! i)) (mfg_len (ds ! i))"
        by (auto simp: merged_def)
      then show ?thesis
      proof cases
        case 1
        with "1.prems" True have "latest_for_loop ds w (i + 1) = (found, ds')"
          by (simp add: latest_for_loop.simps [of ds w i])
        from "1.IH"(1) [OF True 1 this "1.prems"(2)] show ?thesis .
      next
        case 2
        with "1.prems" True have "latest_for_loop ds w (i + 1) = (found, ds')"
          by (simp add: latest_for_loop.simps [of ds w i])
        from "1.IH"(2) [OF True _ 2(2) this "1.prems"(2)] 2(1) show ?thesis by simp
      next
        case 3
        with "1.prems" True have "latest_for_loop ds w (i + 1) = (found, ds')"
          by (simp add: latest_for_loop.simps [of ds w i])
        from "1.IH"(3) [OF True _ _ _ this "1.prems"(2)] 3 show ?thesis by simp
      qed
    next
      case m: True
      let ?ds1 = "ds[i := update_device_id (ds ! i)]"
      from m have c: "in_use (ds ! i)" "have_mfg (ds ! i)" "have_svc (ds ! i)"
        "is_switchbot_mfg (mfg (ds ! i)) (mfg_len (ds ! i))"
        by (auto simp: merged_def)
      have il: "i < length ds" using True "1.prems"(2) by simp
      show ?thesis
      proof (cases "have_device_id (?ds1 ! i) \<and> device_id (?ds1 ! i) = w")
        case hit: True
        with "1.prems" True c have "ds' = ?ds1" "found = int i"
          by (simp_all add: latest_for_loop.simps [of ds w i] Let_def)
        with hit m il True show ?thesis by auto
      next
        case False
        with "1.prems" True c il
        have r: "latest_for_loop ?ds1 w (i + 1) = (found, ds')"
          by (auto simp add: latest_for_loop.simps [of ds w i] Let_def split: if_splits)
        from "1.IH"(4) [OF True _ _ _ refl False r] c "1.prems"(2)
        show ?thesis by simp
      qed
    qed
  qed
qed

subsection \<open>The device identifier\<close>

lemma update_device_id_eq:
  "update_device_id d =
     (if have_mfg d \<and> 8 \<le> mfg_len d
      then d\<lparr>device_id := id_of_mfg (mfg d), have_device_id := True\<rparr> else d)"
  by (simp add: update_device_id_def id_of_mfg_def)

lemma unat_ucast_u8_u16:
  fixes b :: u8
  shows "unat (ucast b :: u16) = unat b"
proof -
  have "unat b < 256" using unsigned_less [of b, where ?'a = nat] by simp
  then have "unat b < 2 ^ 16" by simp
  then show ?thesis
    by (simp only: unsigned_ucast_eq take_bit_nat_eq_self len_bit0 len_num1 mult_1_right)
      (simp add: take_bit_nat_eq_self)
qed

lemma unat_big_endian:
  fixes a b :: u8
  shows "unat (push_bit 8 (ucast a) OR ucast b :: u16) = unat a * 256 + unat b"
proof -
  have disj: "\<not> bit (push_bit 8 (ucast a) :: u16) n \<or> \<not> bit (ucast b :: u16) n" for n
    by (auto simp: bit_simps dest: bit_imp_le_length)
  have "(push_bit 8 (ucast a) OR ucast b :: u16) = push_bit 8 (ucast a) + ucast b"
    using disj by (simp add: disjunctive_add)
  moreover have "unat (push_bit 8 (ucast a) :: u16) = unat a * 256"
  proof -
    have "unat a < 256" using unsigned_less [of a, where ?'a = nat] by simp
    then have "unat a * 256 < 65536" by simp
    then show ?thesis
      by (simp add: push_bit_eq_mult unat_word_ariths unat_ucast_u8_u16)
  qed
  moreover have "unat a * 256 + unat b < 65536"
    using unsigned_less [of a, where ?'a = nat] unsigned_less [of b, where ?'a = nat] by simp
  ultimately show ?thesis
    by (simp add: unat_word_ariths unat_ucast_u8_u16)
qed

lemma unat_id_of_mfg: "unat (id_of_mfg m) = unat (m ! 6) * 256 + unat (m ! 7)"
  by (simp add: id_of_mfg_def unat_big_endian)

subsection \<open>The record a discovery event leaves in its slot\<close>

lemma stored_record:
  assumes m: "store_mfg data ex (d0\<lparr>rssi := r\<rparr>) = Some d2"
    and s: "store_svc data ex d2 = Some d3"
    and X: "X = (if merged d3 then update_device_id d3 else d3)"
  shows "in_use X = in_use d0" and "addr X = addr d0" and "rssi X = r"
    and "have_mfg d0 \<Longrightarrow> have_mfg X" and "have_svc d0 \<Longrightarrow> have_svc X"
    and "merged X = merged d3"
    and "wf_device d0 \<Longrightarrow> wf_device X"
    and "merged X \<and> 8 \<le> mfg_len X \<Longrightarrow>
           have_device_id X \<and> device_id X = id_of_mfg (mfg X)"
    and "\<not> (merged X \<and> 8 \<le> mfg_len X) \<Longrightarrow>
           have_device_id X = have_device_id d0 \<and> device_id X = device_id d0"
proof -
  note km = store_mfg_keeps [OF m]
  note ks = store_svc_keeps [OF s]
  show "in_use X = in_use d0" using km ks X by simp
  show "addr X = addr d0" using km ks X by simp
  show "rssi X = r" using km ks X by simp
  show "have_mfg X" if "have_mfg d0" using km(9) ks(4) that X by simp
  show "have_svc X" if "have_svc d0" using km(4) ks(9) that X by simp
  show mx: "merged X = merged d3" using X by simp
  show "wf_device X" if "wf_device d0"
    using store_svc_wf [OF s store_mfg_wf [OF m]] that X by simp
  show "have_device_id X \<and> device_id X = id_of_mfg (mfg X)" if "merged X \<and> 8 \<le> mfg_len X"
    using that mx X by (auto simp: update_device_id_eq merged_def)
  show "have_device_id X = have_device_id d0 \<and> device_id X = device_id d0"
    if "\<not> (merged X \<and> 8 \<le> mfg_len X)"
    using that mx X km ks by (auto simp: update_device_id_eq merged_def split: if_splits)
qed

subsection \<open>The invariants hold along every run\<close>

lemma run_inv_init: "run_inv init_state"
  by (simp add: run_inv_def wf_state_def unused_zero_def latest_complete_def ids_current_def
      init_state_def list_all_length wf_device_def zero_device_def merged_def)

lemma gap_event_cb_inv:
  assumes inv: "run_inv s" and cb: "gap_event_cb s ev = Some (s', fx)"
  shows "run_inv s'"
proof (cases ev)
  case (BLE_GAP_EVENT_DISC desc)
  from inv have wf: "wf_state s" and uz: "unused_zero s" and lc: "latest_complete s"
    and ic: "ids_current s"
    by (simp_all add: run_inv_def)
  from wf have len: "length (g_devices s) = MAX_DEVICES" by (simp add: wf_state_def)
  from cb BLE_GAP_EVENT_DISC
  have cb': "gap_event_cb s (BLE_GAP_EVENT_DISC desc) = Some (s', fx)" by simp
  from cb' len show ?thesis
  proof (cases rule: gap_event_cb_DISC_Some)
    case ignored
    with inv show ?thesis by simp
  next
    case (stored ex j d0 d2 d3)
    define X where "X = (if merged d3 then update_device_id d3 else d3)"
    note rec = stored_record [OF stored(6) stored(7) X_def]
    have ds': "g_devices s' = (g_devices s)[j := X]" using stored(8) X_def by simp
    have li: "g_latest_index s' = (if merged X then int j else g_latest_index s)"
      using stored(9) rec(6) by simp
    have jl: "j < length (g_devices s)" using stored(3) len by simp
    have wd0: "wf_device d0"
      using stored(4) wf_state_nth [OF wf stored(3)] wf_zero_device by auto
    have wf': "wf_state s'"
      using wf rec(7) [OF wd0] stored(3) li ds'
      by (auto simp: wf_state_def list_all_length nth_list_update)
    have uz': "unused_zero s'"
      using uz rec(1) stored(5) ds' jl
      by (auto simp: unused_zero_def nth_list_update)
    have lc': "latest_complete s'"
    proof (cases "merged X")
      case True
      then show ?thesis using li ds' jl rec(1) stored(5)
        by (simp add: latest_complete_def merged_def)
    next
      case False
      show ?thesis
      proof (cases "0 \<le> g_latest_index s \<and> nat (g_latest_index s) = j")
        case same: True
        with lc have "in_use (g_devices s ! j)" "have_mfg (g_devices s ! j)"
          "have_svc (g_devices s ! j)"
          by (auto simp: latest_complete_def)
        with stored(4) have "d0 = g_devices s ! j" by auto
        with \<open>have_mfg (g_devices s ! j)\<close> \<open>have_svc (g_devices s ! j)\<close> rec(4,5)
        have "have_mfg X" "have_svc X" by simp_all
        with False li ds' jl rec(1) stored(5) same show ?thesis
          by (simp add: latest_complete_def)
      next
        case other: False
        with False li ds' lc show ?thesis
          by (auto simp: latest_complete_def nth_list_update)
      qed
    qed
    have ic': "ids_current s'"
      using ic rec(8) ds' jl
      by (auto simp: ids_current_def nth_list_update)
    from wf' uz' lc' ic' show ?thesis by (simp add: run_inv_def)
  qed
next
  case BLE_GAP_EVENT_DISC_COMPLETE
  with assms show ?thesis by (simp add: gap_event_cb_def)
next
  case BLE_GAP_EVENT_OTHER
  with assms show ?thesis by (simp add: gap_event_cb_def)
qed

lemma run_inv_devices:
  assumes inv: "run_inv s" and len: "length ds' = length (g_devices s)"
    and slots: "\<forall>k < length (g_devices s). ds' ! k = g_devices s ! k \<or>
        (in_use (g_devices s ! k) \<and> merged (g_devices s ! k)
         \<and> ds' ! k = update_device_id (g_devices s ! k))"
  shows "run_inv (s\<lparr>g_devices := ds'\<rparr>)"
proof -
  from inv have wf: "wf_state s" and uz: "unused_zero s" and lc: "latest_complete s"
    and ic: "ids_current s"
    by (simp_all add: run_inv_def)
  from wf have l12: "length (g_devices s) = MAX_DEVICES" by (simp add: wf_state_def)
  have each: "ds' ! k = g_devices s ! k \<or>
        (in_use (g_devices s ! k) \<and> merged (g_devices s ! k)
         \<and> ds' ! k = update_device_id (g_devices s ! k))" if "k < MAX_DEVICES" for k
    using slots that l12 by simp
  have "wf_device (ds' ! k)" if "k < MAX_DEVICES" for k
    using each [OF that] wf_state_nth [OF wf that] by auto
  then have wf': "wf_state (s\<lparr>g_devices := ds'\<rparr>)"
    using wf len by (simp add: wf_state_def list_all_length)
  have uz': "unused_zero (s\<lparr>g_devices := ds'\<rparr>)"
    unfolding unused_zero_def
  proof (intro allI impI)
    fix k assume k: "k < MAX_DEVICES"
      and nu: "\<not> in_use (g_devices (s\<lparr>g_devices := ds'\<rparr>) ! k)"
    from each [OF k] nu have "ds' ! k = g_devices s ! k" by auto
    with uz k nu show "g_devices (s\<lparr>g_devices := ds'\<rparr>) ! k = zero_device"
      by (simp add: unused_zero_def)
  qed
  have lc': "latest_complete (s\<lparr>g_devices := ds'\<rparr>)"
  proof (cases "0 \<le> g_latest_index s")
    case True
    with wf have k: "nat (g_latest_index s) < MAX_DEVICES" by (auto simp: wf_state_def)
    from each [OF k] lc True show ?thesis
      by (auto simp: latest_complete_def)
  next
    case False
    then show ?thesis by (simp add: latest_complete_def)
  qed
  have ic': "ids_current (s\<lparr>g_devices := ds'\<rparr>)"
    unfolding ids_current_def
  proof (intro allI impI)
    fix k assume k: "k < MAX_DEVICES"
      and m: "merged (g_devices (s\<lparr>g_devices := ds'\<rparr>) ! k) \<and>
              8 \<le> mfg_len (g_devices (s\<lparr>g_devices := ds'\<rparr>) ! k)"
    from each [OF k] m ic k
    show "have_device_id (g_devices (s\<lparr>g_devices := ds'\<rparr>) ! k) \<and>
          device_id (g_devices (s\<lparr>g_devices := ds'\<rparr>) ! k)
            = id_of_mfg (mfg (g_devices (s\<lparr>g_devices := ds'\<rparr>) ! k))"
      by (auto simp: ids_current_def update_device_id_eq merged_def)
  qed
  from wf' uz' lc' ic' show ?thesis by (simp add: run_inv_def)
qed

lemma run_inv_started: "run_inv s \<Longrightarrow> run_inv (s\<lparr>g_ble_started := b\<rparr>)"
  by (simp add: run_inv_def wf_state_def unused_zero_def latest_complete_def ids_current_def)

lemma call_latest_for_scan:
  assumes "g_ble_started s" and "\<not> length data < 3"
    and "latest_for_loop (g_devices s)
           (push_bit 8 (ucast (data ! 1)) OR ucast (data ! 2)) 0 = (found, ds')"
  shows "call_latest_for s data =
           (if found < 0 then make_error 0x43 else reply_latest (ds' ! nat found),
            s\<lparr>g_devices := ds'\<rparr>, [])"
  using assms by (simp add: call_latest_for_def Let_def)

lemma call_latest_for_early:
  assumes "\<not> g_ble_started s \<or> length data < 3"
  shows "snd (call_latest_for s data) = (s, [])"
  using assms by (auto simp: call_latest_for_def)

lemma handle_call_inv:
  assumes inv: "run_inv s"
  shows "run_inv (fst (snd (handle_call s nvs1 nvs2 req)))"
proof (cases req)
  case NotBinary
  with inv show ?thesis by (simp add: handle_call_def)
next
  case (Binary data)
  have lf: "run_inv (fst (snd (call_latest_for s data)))"
  proof (cases "\<not> g_ble_started s \<or> length data < 3")
    case True
    from call_latest_for_early [OF this] inv show ?thesis by simp
  next
    case False
    obtain found ds' where l: "latest_for_loop (g_devices s)
           (push_bit 8 (ucast (data ! 1)) OR ucast (data ! 2)) 0 = (found, ds')"
      by (cases "latest_for_loop (g_devices s)
           (push_bit 8 (ucast (data ! 1)) OR ucast (data ! 2)) 0")
    from False have "g_ble_started s" "\<not> length data < 3" by auto
    from call_latest_for_scan [OF this l] latest_for_loop_slots [OF l]
      run_inv_devices [OF inv, of ds']
    show ?thesis by simp
  qed
  have st: "run_inv (fst (snd (call_ble_start s nvs1 nvs2)))"
    using inv run_inv_started [OF inv, of True] by (simp add: call_ble_start_def Let_def)
  from inv lf st Binary show ?thesis
    by (simp add: handle_call_def Let_def call_ble_stop_def call_latest_def)
qed

lemma step_inv: "run_inv s \<Longrightarrow> step s a = Some s' \<Longrightarrow> run_inv s'"
  by (cases a) (auto simp: step_def handle_call_inv dest: gap_event_cb_inv)

lemma run_inv_run: "run_inv s \<Longrightarrow> run s acts = Some s' \<Longrightarrow> run_inv s'"
proof (induction acts arbitrary: s)
  case Nil
  then show ?case by simp
next
  case (Cons a acts)
  then show ?case by (auto split: option.splits dest: step_inv)
qed

lemma run_inv_reachable: "run init_state acts = Some s \<Longrightarrow> run_inv s"
  using run_inv_init by (rule run_inv_run)

subsection \<open>The slot of a stored event\<close>

lemma gap_event_cb_DISC_slot:
  assumes cb: "gap_event_cb s (BLE_GAP_EVENT_DISC desc) = Some (s', fx)"
    and len: "length (g_devices s) = MAX_DEVICES"
  obtains (ignored) "s' = s" and "fx = []"
      and "\<not> carries_field desc \<or>
           (find_loop (g_devices s) (disc_addr desc) 0 = None \<and>
            alloc_loop (g_devices s) 0 = None)"
  | (stored) j d0 X where
      "j < MAX_DEVICES" and "carries_field desc"
      and "(find_loop (g_devices s) (disc_addr desc) 0 = Some j \<and> d0 = g_devices s ! j) \<or>
           (find_loop (g_devices s) (disc_addr desc) 0 = None \<and>
            alloc_loop (g_devices s) 0 = Some j \<and> \<not> in_use (g_devices s ! j) \<and>
            d0 = zero_device\<lparr>in_use := True, addr := take 6 (disc_addr desc)\<rparr>)"
      and "g_devices s' = (g_devices s)[j := X]"
      and "find_loop (g_devices s') (disc_addr desc) 0 = Some j"
      and "rssi X = disc_rssi desc"
      and "g_latest_index s' = (if merged X then int j else g_latest_index s)"
      and "fx = (if \<not> merged d0 \<and> merged X then [LOG_MERGED] else [])"
      and "merged X \<and> 8 \<le> mfg_len X \<Longrightarrow>
             have_device_id X \<and> device_id X = id_of_mfg (mfg X)"
      and "\<not> (merged X \<and> 8 \<le> mfg_len X) \<Longrightarrow>
             have_device_id X = have_device_id d0 \<and> device_id X = device_id d0"
      and "in_use X" and "addr X = addr d0"
      and "have_mfg X = (have_mfg d0 \<or> stores_mfg desc)"
      and "have_svc X = (have_svc d0 \<or> stores_svc desc)"
      and "is_switchbot_mfg (mfg X) (mfg_len X) =
             (if stores_mfg desc then vendor_mfg desc
              else is_switchbot_mfg (mfg d0) (mfg_len d0))"
      and "g_ble_started s' = g_ble_started s"
proof -
  from cb len show thesis
  proof (cases rule: gap_event_cb_DISC_Some)
    case ignored
    then show ?thesis using that(1) by blast
  next
    case (stored ex j d0 d2 d3)
    define X where "X = (if merged d3 then update_device_id d3 else d3)"
    note rec = stored_record [OF stored(6) stored(7) X_def]
    let ?a = "disc_addr desc"
    have jl: "j < length (g_devices s)" using stored(3) len by simp
    have ds': "g_devices s' = (g_devices s)[j := X]" using stored(8) X_def by simp
    have cf: "carries_field desc" using carries_field_iff [OF stored(1)] stored(2) by simp
    have fl: "find_loop (g_devices s') ?a 0 = Some j"
    proof (cases "find_loop (g_devices s) ?a 0")
      case (Some j')
      with stored(4) have d0: "d0 = g_devices s ! j" and f: "find_loop (g_devices s) ?a 0 = Some j"
        by auto
      have "find_loop ((g_devices s)[j := X]) ?a 0 = find_loop (g_devices s) ?a 0"
      proof (rule find_loop_same_keys)
        fix k assume "k < MAX_DEVICES"
        show "in_use ((g_devices s)[j := X] ! k) = in_use (g_devices s ! k) \<and>
              addr ((g_devices s)[j := X] ! k) = addr (g_devices s ! k)"
          using rec(1,2) d0 jl by (cases "k = j") simp_all
      qed
      with f ds' show ?thesis by simp
    next
      case None
      with stored(4) have d0: "d0 = zero_device\<lparr>in_use := True, addr := take 6 ?a\<rparr>"
        by auto
      show ?thesis
      proof (rule find_loop_first)
        show "0 \<le> j" by simp
        show "j < MAX_DEVICES" by (rule stored(3))
        show "in_use (g_devices s' ! j)" using ds' jl rec(1) stored(5) by simp
        show "memcmp6 (addr (g_devices s' ! j)) ?a" using ds' jl rec(2) d0 by simp
        fix k assume "0 \<le> k" and kj: "k < j"
        then have "g_devices s' ! k = g_devices s ! k" using ds' by simp
        moreover have "\<not> (in_use (g_devices s ! k) \<and> memcmp6 (addr (g_devices s ! k)) ?a)"
          using find_loop_None [OF None, of k] kj stored(3) by simp
        ultimately show "\<not> (in_use (g_devices s' ! k) \<and> memcmp6 (addr (g_devices s' ! k)) ?a)"
          by simp
      qed
    qed
    have li: "g_latest_index s' = (if merged X then int j else g_latest_index s)"
      using stored(9) rec(6) by simp
    have fx: "fx = (if \<not> merged d0 \<and> merged X then [LOG_MERGED] else [])"
      using stored(11) rec(6) by simp
    have iu: "in_use X" using rec(1) stored(5) by simp
    note sm = store_mfg_Some [OF stored(6)]
    note ss = store_svc_Some [OF stored(7)]
    have hm: "have_mfg X = (have_mfg d0 \<or> stores_mfg desc)"
      using sm(1) ss(1) X_def stored(1) by (auto simp: stores_mfg_def split: if_splits)
    have hs: "have_svc X = (have_svc d0 \<or> stores_svc desc)"
      using sm(1) ss(1) X_def stored(1) by (auto simp: stores_svc_def split: if_splits)
    have sb: "is_switchbot_mfg (mfg X) (mfg_len X) =
             (if stores_mfg desc then vendor_mfg desc
              else is_switchbot_mfg (mfg d0) (mfg_len d0))"
    proof (cases "stores_mfg desc")
      case False
      then have "mfg X = mfg d0" "mfg_len X = mfg_len d0"
        using sm(1) ss(1) X_def stored(1) by (auto simp: stores_mfg_def split: if_splits)
      with False show ?thesis by simp
    next
      case True
      let ?n = "unat (ex_mfg_len ex)"
      let ?m = "take ?n (drop (ex_mfg ex) (disc_data desc))"
      from True stored(1) have st: "has_mfg ex \<and> ?n \<le> MAX_BLE_DATA"
        by (simp add: stores_mfg_def)
      with sm(2) have inb: "ex_mfg ex + ?n \<le> length (disc_data desc)" by simp
      then have lm: "length ?m = ?n" by simp
      from st sm(1) ss(1) X_def
      have mx: "mfg X = ?m @ drop ?n (mfg (d0\<lparr>rssi := disc_rssi desc\<rparr>))"
        and lx: "mfg_len X = ex_mfg_len ex"
        by (auto split: if_splits)
      have two: "(ex_mfg_len ex < 2) = (\<not> 2 \<le> ?n)"
        by (simp add: word_less_nat_alt not_le)
      have nth: "(?m @ r) ! 0 = ?m ! 0 \<and> (?m @ r) ! 1 = ?m ! 1" if "2 \<le> ?n" for r
        using that lm by (simp add: nth_append)
      have "vendor_mfg desc =
              (2 \<le> ?n \<and> ?m ! 0 = SWITCHBOT_COMPANY_ID_LE0 \<and> ?m ! 1 = SWITCHBOT_COMPANY_ID_LE1)"
        using stored(1) st lm by (simp add: vendor_mfg_def mfg_bytes_def)
      moreover have "is_switchbot_mfg (mfg X) (mfg_len X) =
              (2 \<le> ?n \<and> ?m ! 0 = SWITCHBOT_COMPANY_ID_LE0 \<and> ?m ! 1 = SWITCHBOT_COMPANY_ID_LE1)"
        using nth by (auto simp: is_switchbot_mfg_def mx lx two)
      ultimately show ?thesis using True by simp
    qed
    from that(2) [OF stored(3) cf stored(4) ds' fl rec(3) li fx rec(8) rec(9) iu rec(2)
        hm hs sb stored(10)]
    show ?thesis by blast
  qed
qed

text \<open>
  C8, as the code has it. A discovery event that carries a manufacturer or a service
  field, for an address that has a slot or can get one, sets the rssi of that address's
  record to the event's rssi, whatever the merge state of the record. An event that
  carries neither field is ignored: it leaves the whole state, rssi included, as it
  was.
\<close>

theorem rssi_updated_when_stored:
  assumes "wf_state s" and "wf_desc desc"
  shows "(carries_field desc \<and>
            (find_loop (g_devices s) (disc_addr desc) 0 \<noteq> None \<or>
             alloc_loop (g_devices s) 0 \<noteq> None)
          \<longrightarrow> (\<exists>s' fx j. gap_event_cb s (BLE_GAP_EVENT_DISC desc) = Some (s', fx)
                  \<and> find_loop (g_devices s') (disc_addr desc) 0 = Some j
                  \<and> rssi (g_devices s' ! j) = disc_rssi desc))
         \<and> (\<not> carries_field desc
          \<longrightarrow> gap_event_cb s (BLE_GAP_EVENT_DISC desc) = Some (s, []))"
proof -
  from gap_event_cb_total [OF assms]
  obtain s' fx where cb: "gap_event_cb s (BLE_GAP_EVENT_DISC desc) = Some (s', fx)"
    by blast
  from assms(1) have len: "length (g_devices s) = MAX_DEVICES" by (simp add: wf_state_def)
  from cb len show ?thesis
  proof (cases rule: gap_event_cb_DISC_slot)
    case ignored
    with cb show ?thesis by auto
  next
    case (stored j d0 X)
    from stored(1) len have "j < length (g_devices s)" by simp
    with stored(4,6) have "rssi (g_devices s' ! j) = disc_rssi desc" by simp
    with cb stored(2,5) show ?thesis by auto
  qed
qed

lemma wf_state_init: "wf_state init_state"
  using run_inv_init by (simp add: run_inv_def)

theorem rssi_updated_when_stored_witness:
  "wf_state init_state
   \<and> wf_desc \<lparr>disc_addr = addr_A, disc_rssi = 0xC4, disc_data = adv_mfg,
              disc_length_data = 10\<rparr>
   \<and> carries_field \<lparr>disc_addr = addr_A, disc_rssi = 0xC4, disc_data = adv_mfg,
              disc_length_data = 10\<rparr>
   \<and> alloc_loop (g_devices init_state) 0 \<noteq> None
   \<and> (\<exists>s' fx j. gap_event_cb init_state
                  (BLE_GAP_EVENT_DISC \<lparr>disc_addr = addr_A, disc_rssi = 0xC4,
                     disc_data = adv_mfg, disc_length_data = 10\<rparr>) = Some (s', fx)
         \<and> find_loop (g_devices s') addr_A 0 = Some j
         \<and> rssi (g_devices s' ! j) = 0xC4)"
proof -
  let ?d = "\<lparr>disc_addr = addr_A, disc_rssi = 0xC4, disc_data = adv_mfg,
              disc_length_data = 10\<rparr>"
  have w: "wf_desc ?d" by (simp add: wf_desc_def adv_mfg_def)
  have c: "carries_field ?d" by code_simp
  have a: "alloc_loop (g_devices init_state) 0 \<noteq> None" by code_simp
  from rssi_updated_when_stored [OF wf_state_init w] c a wf_state_init w
  show ?thesis by simp
qed

theorem rssi_kept_without_field:
  "map_option rssi (slot_after [START, Event (disc addr_A 0xC4 adv_full)] 0) = Some 0xC4
   \<and> map_option addr (slot_after [START, Event (disc addr_A 0xC4 adv_full)] 0) = Some addr_A
   \<and> map_option rssi
       (slot_after [START, Event (disc addr_A 0xC4 adv_full),
                    Event (disc addr_A 0xC6 adv_flags)] 0) = Some 0xC4
   \<and> (0xC4 :: u8) \<noteq> 0xC6"
  by code_simp

lemma merged_zero_slot [simp]: "\<not> merged (zero_device\<lparr>in_use := True, addr := a\<rparr>)"
  by (simp add: merged_def zero_device_def)

lemma zero_slot_halves [simp]:
  "\<not> have_mfg (zero_device\<lparr>in_use := True, addr := a\<rparr>)"
  "\<not> have_svc (zero_device\<lparr>in_use := True, addr := a\<rparr>)"
  by (simp_all add: zero_device_def)






subsection \<open>Queries\<close>

lemma call_latest_for_success:
  assumes "fst (call_latest_for s data) = 0x00 # payload"
    and "MAX_DEVICES \<le> length (g_devices s)"
  shows "\<exists>j < MAX_DEVICES. 0x00 # payload = reply_latest (g_devices s ! j)
           \<and> in_use (g_devices s ! j) \<and> merged (g_devices s ! j)"
proof (cases "\<not> g_ble_started s \<or> length data < 3")
  case True
  with assms(1) show ?thesis
    by (auto simp: call_latest_for_def make_error_def split: if_splits)
next
  case False
  let ?w = "push_bit 8 (ucast (data ! 1)) OR ucast (data ! 2) :: u16"
  obtain found ds' where l: "latest_for_loop (g_devices s) ?w 0 = (found, ds')"
    by (cases "latest_for_loop (g_devices s) ?w 0")
  from False have "g_ble_started s" "\<not> length data < 3" by auto
  note c = call_latest_for_scan [OF this l]
  from assms(1) c have nf: "\<not> found < 0"
    and r: "0x00 # payload = reply_latest (ds' ! nat found)"
    by (auto simp: make_error_def split: if_splits)
  from latest_for_loop_found [OF l assms(2)] nf
  obtain j where j: "found = int j" "j < MAX_DEVICES" "in_use (ds' ! j)" "merged (ds' ! j)"
    by auto
  from j(2) assms(2) have "j < length (g_devices s)" by simp
  with latest_for_loop_slots [OF l]
  have "ds' ! j = g_devices s ! j \<or> ds' ! j = update_device_id (g_devices s ! j)"
    by blast
  then have "reply_latest (ds' ! j) = reply_latest (g_devices s ! j)"
    and "in_use (ds' ! j) = in_use (g_devices s ! j)"
    and "merged (ds' ! j) = merged (g_devices s ! j)"
    by auto
  with r j show ?thesis by auto
qed

text \<open>
  C2, as the code has it. An ingest never sets the latest-valid index to a record that
  fails the merge test, whose last part is the company-identifier check: after an
  event the index is what it was, or names a record that passes. A successful
  \<^verbatim>\<open>LATEST_FOR\<close> answers with a record in use that passes the test at the time of the
  query. A successful \<^verbatim>\<open>LATEST\<close> answers with the record that the index names, which
  is in use and holds both halves; the company identifier is not checked again.
\<close>

theorem company_id_gate:
  assumes "run init_state acts = Some s"
  shows "(\<forall>ev s' fx. gap_event_cb s ev = Some (s', fx)
            \<longrightarrow> g_latest_index s' = g_latest_index s \<or>
                (0 \<le> g_latest_index s' \<and> merged (g_devices s' ! nat (g_latest_index s'))))
         \<and> (\<forall>nvs1 nvs2 body payload.
              fst (handle_call s nvs1 nvs2 (Binary (OPCODE_LATEST_FOR # body))) = 0x00 # payload
            \<longrightarrow> (\<exists>j < MAX_DEVICES. 0x00 # payload = reply_latest (g_devices s ! j)
                    \<and> in_use (g_devices s ! j) \<and> merged (g_devices s ! j)))
         \<and> (\<forall>nvs1 nvs2 body payload.
              fst (handle_call s nvs1 nvs2 (Binary (OPCODE_LATEST # body))) = 0x00 # payload
            \<longrightarrow> 0 \<le> g_latest_index s
                \<and> 0x00 # payload = reply_latest (g_devices s ! nat (g_latest_index s))
                \<and> in_use (g_devices s ! nat (g_latest_index s))
                \<and> have_mfg (g_devices s ! nat (g_latest_index s))
                \<and> have_svc (g_devices s ! nat (g_latest_index s)))"
proof -
  note inv = run_inv_reachable [OF assms]
  then have wf: "wf_state s" and lc: "latest_complete s" by (simp_all add: run_inv_def)
  from wf have len: "length (g_devices s) = MAX_DEVICES" by (simp add: wf_state_def)
  have ingest: "g_latest_index s' = g_latest_index s \<or>
                (0 \<le> g_latest_index s' \<and> merged (g_devices s' ! nat (g_latest_index s')))"
    if cb: "gap_event_cb s ev = Some (s', fx)" for ev s' fx
  proof (cases ev)
    case (BLE_GAP_EVENT_DISC desc)
    with cb have "gap_event_cb s (BLE_GAP_EVENT_DISC desc) = Some (s', fx)" by simp
    from this len show ?thesis
    proof (cases rule: gap_event_cb_DISC_slot)
      case ignored
      then show ?thesis by simp
    next
      case (stored j d0 X)
      from stored(1) len have "j < length (g_devices s)" by simp
      with stored(4) have "g_devices s' ! j = X" by simp
      with stored(7) show ?thesis by simp
    qed
  qed (use cb in \<open>auto simp: gap_event_cb_def\<close>)
  have latest_for: "\<exists>j < MAX_DEVICES. 0x00 # payload = reply_latest (g_devices s ! j)
                    \<and> in_use (g_devices s ! j) \<and> merged (g_devices s ! j)"
    if "fst (handle_call s nvs1 nvs2 (Binary (OPCODE_LATEST_FOR # body))) = 0x00 # payload"
    for nvs1 nvs2 body payload
  proof -
    from that have "fst (call_latest_for s (OPCODE_LATEST_FOR # body)) = 0x00 # payload"
      by (simp add: handle_call_def opcode_defs)
    from call_latest_for_success [OF this] len show ?thesis by simp
  qed
  have latest: "0 \<le> g_latest_index s
                \<and> 0x00 # payload = reply_latest (g_devices s ! nat (g_latest_index s))
                \<and> in_use (g_devices s ! nat (g_latest_index s))
                \<and> have_mfg (g_devices s ! nat (g_latest_index s))
                \<and> have_svc (g_devices s ! nat (g_latest_index s))"
    if "fst (handle_call s nvs1 nvs2 (Binary (OPCODE_LATEST # body))) = 0x00 # payload"
    for nvs1 nvs2 body payload
  proof -
    from that have "fst (call_latest s) = 0x00 # payload"
      by (simp add: handle_call_def opcode_defs)
    then have "0 \<le> g_latest_index s"
      and "0x00 # payload = reply_latest (g_devices s ! nat (g_latest_index s))"
      by (auto simp: call_latest_def Let_def make_error_def split: if_splits)
    with lc show ?thesis by (simp add: latest_complete_def)
  qed
  from ingest latest_for latest show ?thesis by blast
qed

theorem company_id_gate_witness:
  "(\<exists>s. run init_state [START, Event (disc addr_A 0xC4 adv_full)] = Some s
        \<and> fst (handle_call s ESP_OK ESP_OK (Binary [OPCODE_LATEST_FOR, 0x12, 0x34]))
            = [0x00, 0x00, 0x11, 0x22, 0x33, 0x44, 0x55, 0xC4, 0x00, 0x08,
               0x69, 0x09, 0x00, 0x00, 0x00, 0x00, 0x12, 0x34]
        \<and> (\<exists>j < MAX_DEVICES.
              fst (handle_call s ESP_OK ESP_OK (Binary [OPCODE_LATEST_FOR, 0x12, 0x34]))
                = reply_latest (g_devices s ! j)
              \<and> in_use (g_devices s ! j) \<and> merged (g_devices s ! j)))"
proof -
  have "run init_state [START, Event (disc addr_A 0xC4 adv_full)] \<noteq> None"
    by code_simp
  then obtain s where r: "run init_state [START, Event (disc addr_A 0xC4 adv_full)] = Some s"
    by blast
  have "map_option (\<lambda>s. fst (handle_call s ESP_OK ESP_OK (Binary [OPCODE_LATEST_FOR, 0x12, 0x34])))
          (run init_state [START, Event (disc addr_A 0xC4 adv_full)])
        = Some [0x00, 0x00, 0x11, 0x22, 0x33, 0x44, 0x55, 0xC4, 0x00, 0x08,
               0x69, 0x09, 0x00, 0x00, 0x00, 0x00, 0x12, 0x34]"
    by code_simp
  with r have q: "fst (handle_call s ESP_OK ESP_OK (Binary (OPCODE_LATEST_FOR # [0x12, 0x34])))
        = 0x00 # [0x00, 0x11, 0x22, 0x33, 0x44, 0x55, 0xC4, 0x00, 0x08,
               0x69, 0x09, 0x00, 0x00, 0x00, 0x00, 0x12, 0x34]"
    by simp
  from company_id_gate [OF r] q r show ?thesis by auto
qed

theorem latest_returns_foreign_record:
  "reply_after [START, Event (disc addr_A 0xC4 adv_full), Event (disc addr_A 0xC6 adv_other)]
       (Binary [OPCODE_LATEST])
     = Some [0x00, 0x00, 0x11, 0x22, 0x33, 0x44, 0x55, 0xC6, 0x00, 0x02, 0x00, 0x01]
   \<and> latest_after [START, Event (disc addr_A 0xC4 adv_full), Event (disc addr_A 0xC6 adv_other)]
     = Some 0
   \<and> map_option merged
       (slot_after [START, Event (disc addr_A 0xC4 adv_full),
                    Event (disc addr_A 0xC6 adv_other)] 0) = Some False
   \<and> map_option mfg_len
       (slot_after [START, Event (disc addr_A 0xC4 adv_full),
                    Event (disc addr_A 0xC6 adv_other)] 0) = Some 2
   \<and> map_option (take 2 \<circ> mfg)
       (slot_after [START, Event (disc addr_A 0xC4 adv_full),
                    Event (disc addr_A 0xC6 adv_other)] 0) = Some [0x00, 0x01]"
  by code_simp

subsection \<open>How a step changes the identifier of a slot\<close>

lemma zero_device_id [simp]:
  "have_device_id (zero_device\<lparr>in_use := True, addr := a\<rparr>) = have_device_id zero_device"
  "device_id (zero_device\<lparr>in_use := True, addr := a\<rparr>) = device_id zero_device"
  by simp_all

lemma gap_event_cb_id_kept:
  assumes inv: "run_inv s" and cb: "gap_event_cb s ev = Some (s', fx)"
    and k: "k < MAX_DEVICES"
    and no: "\<not> (merged (g_devices s' ! k) \<and> 8 \<le> mfg_len (g_devices s' ! k))"
  shows "have_device_id (g_devices s' ! k) = have_device_id (g_devices s ! k)
         \<and> device_id (g_devices s' ! k) = device_id (g_devices s ! k)"
proof (cases ev)
  case (BLE_GAP_EVENT_DISC desc)
  from inv have wf: "wf_state s" and uz: "unused_zero s" by (simp_all add: run_inv_def)
  from wf have len: "length (g_devices s) = MAX_DEVICES" by (simp add: wf_state_def)
  from cb BLE_GAP_EVENT_DISC
  have "gap_event_cb s (BLE_GAP_EVENT_DISC desc) = Some (s', fx)" by simp
  from this len show ?thesis
  proof (cases rule: gap_event_cb_DISC_slot)
    case ignored
    then show ?thesis by simp
  next
    case (stored j d0 X)
    show ?thesis
    proof (cases "k = j")
      case False
      with stored(4) show ?thesis by simp
    next
      case True
      from stored(1) len have jl: "j < length (g_devices s)" by simp
      with stored(4) have x: "g_devices s' ! j = X" by simp
      from no True x have "\<not> (merged X \<and> 8 \<le> mfg_len X)" by simp
      from stored(10) [OF this]
      have keep: "have_device_id X = have_device_id d0 \<and> device_id X = device_id d0" .
      from stored(3) have "have_device_id d0 = have_device_id (g_devices s ! j)
                           \<and> device_id d0 = device_id (g_devices s ! j)"
      proof
        assume "find_loop (g_devices s) (disc_addr desc) 0 = Some j \<and> d0 = g_devices s ! j"
        then show ?thesis by simp
      next
        assume a: "find_loop (g_devices s) (disc_addr desc) 0 = None \<and>
            alloc_loop (g_devices s) 0 = Some j \<and> \<not> in_use (g_devices s ! j) \<and>
            d0 = zero_device\<lparr>in_use := True, addr := take 6 (disc_addr desc)\<rparr>"
        with uz stored(1) have "g_devices s ! j = zero_device"
          by (simp add: unused_zero_def)
        with a show ?thesis by simp
      qed
      with keep x True show ?thesis by simp
    qed
  qed
next
  case BLE_GAP_EVENT_DISC_COMPLETE
  with cb show ?thesis by (simp add: gap_event_cb_def)
next
  case BLE_GAP_EVENT_OTHER
  with cb show ?thesis by (simp add: gap_event_cb_def)
qed

lemma handle_call_devices:
  "g_devices (fst (snd (handle_call s nvs1 nvs2 req))) = g_devices s \<or>
   (\<exists>data. g_devices (fst (snd (handle_call s nvs1 nvs2 req)))
             = g_devices (fst (snd (call_latest_for s data)))
          \<and> g_ble_started s \<and> \<not> length data < 3)"
proof (cases req)
  case NotBinary
  then show ?thesis by (simp add: handle_call_def)
next
  case (Binary data)
  show ?thesis
  proof (cases "\<not> g_ble_started s \<or> length data < 3")
    case True
    from call_latest_for_early [OF this] Binary show ?thesis
      by (simp add: handle_call_def Let_def call_ble_start_def call_ble_stop_def
          call_latest_def)
  next
    case False
    with Binary show ?thesis
      by (auto simp: handle_call_def Let_def call_ble_start_def call_ble_stop_def
          call_latest_def)
  qed
qed

lemma handle_call_id_kept:
  assumes k: "k < MAX_DEVICES" and len: "length (g_devices s) = MAX_DEVICES"
    and no: "\<not> (merged (g_devices (fst (snd (handle_call s nvs1 nvs2 req))) ! k)
              \<and> 8 \<le> mfg_len (g_devices (fst (snd (handle_call s nvs1 nvs2 req))) ! k))"
  shows "have_device_id (g_devices (fst (snd (handle_call s nvs1 nvs2 req))) ! k)
           = have_device_id (g_devices s ! k)
         \<and> device_id (g_devices (fst (snd (handle_call s nvs1 nvs2 req))) ! k)
           = device_id (g_devices s ! k)"
proof -
  let ?s' = "fst (snd (handle_call s nvs1 nvs2 req))"
  from handle_call_devices [of s nvs1 nvs2 req] show ?thesis
  proof
    assume "g_devices ?s' = g_devices s"
    then show ?thesis by simp
  next
    assume "\<exists>data. g_devices ?s' = g_devices (fst (snd (call_latest_for s data)))
          \<and> g_ble_started s \<and> \<not> length data < 3"
    then obtain data where d: "g_devices ?s' = g_devices (fst (snd (call_latest_for s data)))"
      and st: "g_ble_started s" "\<not> length data < 3"
      by blast
    obtain found ds' where l: "latest_for_loop (g_devices s)
           (push_bit 8 (ucast (data ! 1)) OR ucast (data ! 2)) 0 = (found, ds')"
      by (cases "latest_for_loop (g_devices s)
           (push_bit 8 (ucast (data ! 1)) OR ucast (data ! 2)) 0")
    from call_latest_for_scan [OF st l] d have ds: "g_devices ?s' = ds'" by simp
    from k len have "k < length (g_devices s)" by simp
    with latest_for_loop_slots [OF l]
    have "ds' ! k = g_devices s ! k \<or>
          (merged (g_devices s ! k) \<and> ds' ! k = update_device_id (g_devices s ! k))"
      by blast
    then show ?thesis
    proof
      assume "ds' ! k = g_devices s ! k"
      with ds show ?thesis by simp
    next
      assume u: "merged (g_devices s ! k) \<and> ds' ! k = update_device_id (g_devices s ! k)"
      with no ds have "\<not> 8 \<le> mfg_len (g_devices s ! k)" by simp
      then have "update_device_id (g_devices s ! k) = g_devices s ! k"
        by (simp add: update_device_id_eq)
      with u ds show ?thesis by simp
    qed
  qed
qed

text \<open>
  C3, as the code has it. After every step of a run, a record that passes the merge
  test with a manufacturer payload \<open>A\<close> of eight bytes or more has \<^verbatim>\<open>have_device_id\<close>
  set and \<^verbatim>\<open>device_id\<close> equal to \<open>A[6] * 256 + A[7]\<close>. In every other case the step
  leaves \<^verbatim>\<open>have_device_id\<close> and \<^verbatim>\<open>device_id\<close> of the slot as they were: a payload of
  fewer than eight bytes never sets the flag, which starts out false, and never clears
  it either, so a record whose long payload is overwritten by a shorter one keeps the
  flag and the old identifier.
\<close>

theorem device_id_derivation:
  assumes "run init_state acts = Some s" and "step s a = Some s'" and "k < MAX_DEVICES"
  shows "(merged (g_devices s' ! k) \<and> 8 \<le> unat (mfg_len (g_devices s' ! k))
          \<longrightarrow> have_device_id (g_devices s' ! k)
              \<and> unat (device_id (g_devices s' ! k))
                  = unat (mfg (g_devices s' ! k) ! 6) * 256 + unat (mfg (g_devices s' ! k) ! 7))
         \<and> (\<not> (merged (g_devices s' ! k) \<and> 8 \<le> unat (mfg_len (g_devices s' ! k)))
          \<longrightarrow> have_device_id (g_devices s' ! k) = have_device_id (g_devices s ! k)
              \<and> device_id (g_devices s' ! k) = device_id (g_devices s ! k))
         \<and> \<not> have_device_id (g_devices init_state ! k)"
proof -
  note inv = run_inv_reachable [OF assms(1)]
  note inv' = step_inv [OF inv assms(2)]
  from inv have len: "length (g_devices s) = MAX_DEVICES"
    by (simp add: run_inv_def wf_state_def)
  have w8: "(8 \<le> mfg_len d) = (8 \<le> unat (mfg_len d))" for d :: device_cache_t
    by (simp add: word_le_nat_alt)
  have set: "have_device_id (g_devices s' ! k)
              \<and> unat (device_id (g_devices s' ! k))
                  = unat (mfg (g_devices s' ! k) ! 6) * 256 + unat (mfg (g_devices s' ! k) ! 7)"
    if "merged (g_devices s' ! k) \<and> 8 \<le> unat (mfg_len (g_devices s' ! k))"
    using inv' that assms(3)
    by (auto simp: run_inv_def ids_current_def w8 unat_id_of_mfg)
  have kept: "have_device_id (g_devices s' ! k) = have_device_id (g_devices s ! k)
              \<and> device_id (g_devices s' ! k) = device_id (g_devices s ! k)"
    if no: "\<not> (merged (g_devices s' ! k) \<and> 8 \<le> unat (mfg_len (g_devices s' ! k)))"
  proof (cases a)
    case (Event ev)
    with assms(2) obtain fx where "gap_event_cb s ev = Some (s', fx)"
      by (auto simp: step_def)
    from gap_event_cb_id_kept [OF inv this assms(3)] no show ?thesis
      by (simp add: w8)
  next
    case (Call nvs1 nvs2 req)
    with assms(2) have "s' = fst (snd (handle_call s nvs1 nvs2 req))"
      by (simp add: step_def)
    with handle_call_id_kept [OF assms(3) len, of nvs1 nvs2 req] no show ?thesis
      by (simp add: w8)
  qed
  have "\<not> have_device_id (g_devices init_state ! k)"
    using assms(3) by (simp add: init_state_def zero_device_def)
  with set kept show ?thesis by blast
qed

theorem device_id_derivation_witness:
  "(\<exists>s s'. run init_state [START, Event (disc addr_A 0xC4 adv_full)] = Some s
      \<and> step s (Event (disc addr_A 0xC6 adv_short)) = Some s'
      \<and> have_device_id (g_devices s ! 0)
      \<and> unat (device_id (g_devices s ! 0)) = 0x12 * 256 + 0x34
      \<and> mfg_len (g_devices s' ! 0) = 2
      \<and> have_device_id (g_devices s' ! 0) = have_device_id (g_devices s ! 0)
      \<and> device_id (g_devices s' ! 0) = device_id (g_devices s ! 0))"
proof -
  have "run init_state [START, Event (disc addr_A 0xC4 adv_full),
          Event (disc addr_A 0xC6 adv_short)] \<noteq> None"
    by code_simp
  then obtain s s' where r: "run init_state [START, Event (disc addr_A 0xC4 adv_full)] = Some s"
    and st: "step s (Event (disc addr_A 0xC6 adv_short)) = Some s'"
    by (auto simp: START_def split: option.splits)
  have e: "map_option (\<lambda>s. (have_device_id (g_devices s ! 0), unat (device_id (g_devices s ! 0)),
              merged (g_devices s ! 0), unat (mfg_len (g_devices s ! 0))))
            (run init_state [START, Event (disc addr_A 0xC4 adv_full)])
           = Some (True, 0x12 * 256 + 0x34, True, 8)"
    by code_simp
  have e': "map_option (\<lambda>s. mfg_len (g_devices s ! 0))
            (run init_state [START, Event (disc addr_A 0xC4 adv_full),
               Event (disc addr_A 0xC6 adv_short)])
           = Some 2"
    by code_simp
  from e r have f: "have_device_id (g_devices s ! 0)"
    "unat (device_id (g_devices s ! 0)) = 0x12 * 256 + 0x34"
    by simp_all
  from e' r st have l: "mfg_len (g_devices s' ! 0) = 2"
    by (simp add: START_def split: option.splits)
  have k: "(0 :: nat) < MAX_DEVICES" by (simp add: MAX_DEVICES_def)
  from device_id_derivation [OF r st k] l
  have "have_device_id (g_devices s' ! 0) = have_device_id (g_devices s ! 0)
      \<and> device_id (g_devices s' ! 0) = device_id (g_devices s ! 0)"
    by simp
  with r st f l show ?thesis by blast
qed

theorem device_id_flag_stale:
  "map_option have_device_id
     (slot_after [START, Event (disc addr_A 0xC4 adv_full),
                  Event (disc addr_A 0xC6 adv_short)] 0) = Some True
   \<and> map_option mfg_len
       (slot_after [START, Event (disc addr_A 0xC4 adv_full),
                    Event (disc addr_A 0xC6 adv_short)] 0) = Some 2
   \<and> map_option have_mfg
       (slot_after [START, Event (disc addr_A 0xC4 adv_full),
                    Event (disc addr_A 0xC6 adv_short)] 0) = Some True"
  by code_simp

subsection \<open>Slots in use along a run\<close>

lemma in_use_addrs_iff:
  assumes "length (g_devices s) = MAX_DEVICES"
  shows "x \<in> set (in_use_addrs s) \<longleftrightarrow>
           (\<exists>k < MAX_DEVICES. in_use (g_devices s ! k) \<and> x = take 6 (addr (g_devices s ! k)))"
  using assms by (auto simp: in_use_addrs_def in_set_conv_nth)

lemma registry_full_iff:
  assumes "length (g_devices s) = MAX_DEVICES"
  shows "registry_full s \<longleftrightarrow> (\<forall>k < MAX_DEVICES. in_use (g_devices s ! k))"
  using assms by (simp add: registry_full_def list_all_length)

lemma ingested_addrs_Cons: "ingested_addrs (a # as) = ingested_addrs [a] @ ingested_addrs as"
proof (cases a)
  case (Event ev)
  then show ?thesis by (cases ev) simp_all
next
  case (Call nvs1 nvs2 req)
  then show ?thesis by simp
qed

lemma ingested_addrs_Call [simp]: "ingested_addrs [Call nvs1 nvs2 req] = []"
  by simp

lemma handle_call_keys:
  assumes k: "k < MAX_DEVICES" and len: "length (g_devices s) = MAX_DEVICES"
  shows "in_use (g_devices (fst (snd (handle_call s nvs1 nvs2 req))) ! k)
           = in_use (g_devices s ! k)
         \<and> addr (g_devices (fst (snd (handle_call s nvs1 nvs2 req))) ! k)
           = addr (g_devices s ! k)"
proof -
  let ?s' = "fst (snd (handle_call s nvs1 nvs2 req))"
  from handle_call_devices [of s nvs1 nvs2 req] show ?thesis
  proof
    assume "g_devices ?s' = g_devices s"
    then show ?thesis by simp
  next
    assume "\<exists>data. g_devices ?s' = g_devices (fst (snd (call_latest_for s data)))
          \<and> g_ble_started s \<and> \<not> length data < 3"
    then obtain data where d: "g_devices ?s' = g_devices (fst (snd (call_latest_for s data)))"
      and st: "g_ble_started s" "\<not> length data < 3"
      by blast
    obtain found ds' where l: "latest_for_loop (g_devices s)
           (push_bit 8 (ucast (data ! 1)) OR ucast (data ! 2)) 0 = (found, ds')"
      by (cases "latest_for_loop (g_devices s)
           (push_bit 8 (ucast (data ! 1)) OR ucast (data ! 2)) 0")
    from call_latest_for_scan [OF st l] d have ds: "g_devices ?s' = ds'" by simp
    from k len have "k < length (g_devices s)" by simp
    with latest_for_loop_slots [OF l]
    have "ds' ! k = g_devices s ! k \<or> ds' ! k = update_device_id (g_devices s ! k)"
      by blast
    with ds show ?thesis by auto
  qed
qed

lemma step_slots:
  assumes inv: "run_inv s" and st: "step s a = Some s'"
  shows "(\<forall>k < MAX_DEVICES. in_use (g_devices s ! k)
            \<longrightarrow> in_use (g_devices s' ! k) \<and> addr (g_devices s' ! k) = addr (g_devices s ! k))
         \<and> (registry_full s' \<or> set (ingested_addrs [a]) \<subseteq> set (in_use_addrs s'))"
proof -
  from inv have len: "length (g_devices s) = MAX_DEVICES"
    by (simp add: run_inv_def wf_state_def)
  from step_inv [OF inv st] have len': "length (g_devices s') = MAX_DEVICES"
    by (simp add: run_inv_def wf_state_def)
  show ?thesis
  proof (cases a)
    case (Call nvs1 nvs2 req)
    with st have "s' = fst (snd (handle_call s nvs1 nvs2 req))" by (simp add: step_def)
    with handle_call_keys [OF _ len, of _ nvs1 nvs2 req] Call show ?thesis by simp
  next
    case (Event ev)
    with st obtain fx where cb: "gap_event_cb s ev = Some (s', fx)"
      by (auto simp: step_def)
    show ?thesis
    proof (cases ev)
      case BLE_GAP_EVENT_DISC_COMPLETE
      with cb Event show ?thesis by (simp add: gap_event_cb_def)
    next
      case BLE_GAP_EVENT_OTHER
      with cb Event show ?thesis by (simp add: gap_event_cb_def)
    next
      case (BLE_GAP_EVENT_DISC desc)
      with cb have "gap_event_cb s (BLE_GAP_EVENT_DISC desc) = Some (s', fx)" by simp
      from this len show ?thesis
      proof (cases rule: gap_event_cb_DISC_slot)
        case ignored
        from ignored(3) have "registry_full s \<or> \<not> carries_field desc"
        proof
          assume "\<not> carries_field desc"
          then show ?thesis by simp
        next
          assume "find_loop (g_devices s) (disc_addr desc) 0 = None \<and>
                  alloc_loop (g_devices s) 0 = None"
          then have "\<forall>k < MAX_DEVICES. in_use (g_devices s ! k)"
            using alloc_loop_None [of "g_devices s" 0] by simp
          then show ?thesis by (simp add: registry_full_iff [OF len])
        qed
        with ignored(1) Event BLE_GAP_EVENT_DISC show ?thesis by auto
      next
        case (stored j d0 X)
        from stored(1) len have jl: "j < length (g_devices s)" by simp
        with stored(4) have x: "g_devices s' ! j = X" by simp
        have keys: "in_use (g_devices s' ! k) \<and> addr (g_devices s' ! k) = addr (g_devices s ! k)"
          if "k < MAX_DEVICES" "in_use (g_devices s ! k)" for k
        proof (cases "k = j")
          case False
          with stored(4) that show ?thesis by simp
        next
          case True
          with that stored(3) have "d0 = g_devices s ! j" by auto
          with True x stored(11,12) show ?thesis by simp
        qed
        from stored(3) have "take 6 (addr d0) = take 6 (disc_addr desc)"
        proof
          assume "find_loop (g_devices s) (disc_addr desc) 0 = Some j \<and> d0 = g_devices s ! j"
          with find_loop_Some [of "g_devices s" "disc_addr desc" 0 j] show ?thesis
            by (simp add: memcmp6_def)
        next
          assume "find_loop (g_devices s) (disc_addr desc) 0 = None \<and>
            alloc_loop (g_devices s) 0 = Some j \<and> \<not> in_use (g_devices s ! j) \<and>
            d0 = zero_device\<lparr>in_use := True, addr := take 6 (disc_addr desc)\<rparr>"
          then show ?thesis by simp
        qed
        with x stored(1,11,12)
        have "take 6 (disc_addr desc) \<in> set (in_use_addrs s')"
          by (auto simp: in_use_addrs_iff [OF len'])
        with keys Event BLE_GAP_EVENT_DISC show ?thesis by simp
      qed
    qed
  qed
qed

lemma run_slots:
  assumes "run_inv s" and "run s acts = Some s'"
  shows "(\<forall>k < MAX_DEVICES. in_use (g_devices s ! k)
            \<longrightarrow> in_use (g_devices s' ! k) \<and> addr (g_devices s' ! k) = addr (g_devices s ! k))
         \<and> (registry_full s' \<or> set (ingested_addrs acts) \<subseteq> set (in_use_addrs s'))"
  using assms
proof (induction acts arbitrary: s)
  case Nil
  then show ?case by simp
next
  case (Cons a acts)
  from Cons.prems(2) obtain s1 where st: "step s a = Some s1" and r: "run s1 acts = Some s'"
    by (auto split: option.splits)
  note inv1 = step_inv [OF Cons.prems(1) st]
  note inv' = run_inv_run [OF inv1 r]
  from inv1 have len1: "length (g_devices s1) = MAX_DEVICES"
    by (simp add: run_inv_def wf_state_def)
  from inv' have len': "length (g_devices s') = MAX_DEVICES"
    by (simp add: run_inv_def wf_state_def)
  from step_slots [OF Cons.prems(1) st]
  have k1: "\<And>k. k < MAX_DEVICES \<Longrightarrow> in_use (g_devices s ! k)
            \<Longrightarrow> in_use (g_devices s1 ! k) \<and> addr (g_devices s1 ! k) = addr (g_devices s ! k)"
    and f1: "registry_full s1 \<or> set (ingested_addrs [a]) \<subseteq> set (in_use_addrs s1)"
    by simp_all
  from Cons.IH [OF inv1 r]
  have k2: "\<And>k. k < MAX_DEVICES \<Longrightarrow> in_use (g_devices s1 ! k)
            \<Longrightarrow> in_use (g_devices s' ! k) \<and> addr (g_devices s' ! k) = addr (g_devices s1 ! k)"
    and f2: "registry_full s' \<or> set (ingested_addrs acts) \<subseteq> set (in_use_addrs s')"
    by simp_all
  have keys: "in_use (g_devices s' ! k) \<and> addr (g_devices s' ! k) = addr (g_devices s ! k)"
    if "k < MAX_DEVICES" "in_use (g_devices s ! k)" for k
    using k1 [OF that] k2 [OF that(1)] by simp
  have mono: "set (in_use_addrs s1) \<subseteq> set (in_use_addrs s')"
  proof
    fix x assume "x \<in> set (in_use_addrs s1)"
    then obtain k where k: "k < MAX_DEVICES" "in_use (g_devices s1 ! k)"
      "x = take 6 (addr (g_devices s1 ! k))"
      by (auto simp: in_use_addrs_iff [OF len1])
    from k2 [OF k(1,2)] k have "k < MAX_DEVICES \<and> in_use (g_devices s' ! k)
        \<and> x = take 6 (addr (g_devices s' ! k))"
      by simp
    then show "x \<in> set (in_use_addrs s')"
      unfolding in_use_addrs_iff [OF len'] by (rule exI)
  qed
  have full: "registry_full s'" if "registry_full s1"
    using that k2 by (simp add: registry_full_iff [OF len1] registry_full_iff [OF len'])
  have "registry_full s' \<or> set (ingested_addrs (a # acts)) \<subseteq> set (in_use_addrs s')"
  proof (cases "registry_full s'")
    case True
    then show ?thesis by simp
  next
    case False
    with full f1 f2 have "set (ingested_addrs [a]) \<subseteq> set (in_use_addrs s1)"
      "set (ingested_addrs acts) \<subseteq> set (in_use_addrs s')"
      by auto
    with mono show ?thesis
      by (subst ingested_addrs_Cons) auto
  qed
  with keys show ?case by simp
qed

lemma not_full_card:
  assumes len: "length (g_devices s) = MAX_DEVICES" and nf: "\<not> registry_full s"
  shows "card (set (in_use_addrs s)) < MAX_DEVICES"
proof -
  from nf obtain d where "d \<in> set (g_devices s)" "\<not> in_use d"
    by (auto simp: registry_full_def list_all_iff)
  then have "length (filter in_use (g_devices s)) < length (g_devices s)"
    by (rule length_filter_less)
  moreover have "card (set (in_use_addrs s)) \<le> length (in_use_addrs s)"
    by (rule card_length)
  ultimately show ?thesis using len by (simp add: in_use_addrs_def)
qed

lemma full_after_twelve:
  assumes r: "run init_state acts = Some s"
    and c: "MAX_DEVICES \<le> card (set (ingested_addrs acts))"
  shows "registry_full s"
proof (rule ccontr)
  assume nf: "\<not> registry_full s"
  from run_inv_reachable [OF r] have len: "length (g_devices s) = MAX_DEVICES"
    by (simp add: run_inv_def wf_state_def)
  from run_slots [OF run_inv_init r] nf
  have "set (ingested_addrs acts) \<subseteq> set (in_use_addrs s)" by simp
  then have "card (set (ingested_addrs acts)) \<le> card (set (in_use_addrs s))"
    by (simp add: card_mono)
  with not_full_card [OF len nf] c show False by simp
qed

subsection \<open>Which address holds which slot\<close>

lemma foldl_add_new_distinct: "distinct xs \<Longrightarrow> distinct (foldl add_new xs ys)"
  by (induction ys arbitrary: xs) (simp_all add: add_new_def)

lemma foldl_add_new_set: "set (foldl add_new xs ys) = set xs \<union> set ys"
  by (induction ys arbitrary: xs) (auto simp: add_new_def)

lemma first_seen_distinct: "distinct (first_seen xs)"
  by (simp add: first_seen_def foldl_add_new_distinct)

lemma first_seen_set: "set (first_seen xs) = set xs"
  by (simp add: first_seen_def foldl_add_new_set)

lemma first_seen_length: "length (first_seen xs) = card (set xs)"
  using distinct_card [OF first_seen_distinct, of xs] by (simp add: first_seen_set)

lemma alloc_loop_least:
  "alloc_loop ds i = Some j \<Longrightarrow> i \<le> k \<Longrightarrow> k < j \<Longrightarrow> in_use (ds ! k)"
proof (induction ds i rule: alloc_loop.induct)
  case (1 ds i)
  from "1.prems" alloc_loop_Some [of ds i j] have ij: "i < j" "j < MAX_DEVICES" by auto
  then have im: "i < MAX_DEVICES" by simp
  show ?case
  proof (cases "in_use (ds ! i)")
    case False
    with "1.prems"(1) im ij show ?thesis
      by (simp add: alloc_loop.simps [of ds i])
  next
    case True
    with "1.prems"(1) im have r: "alloc_loop ds (i + 1) = Some j"
      by (simp add: alloc_loop.simps [of ds i])
    show ?thesis
    proof (cases "k = i")
      case True
      with \<open>in_use (ds ! i)\<close> show ?thesis by simp
    next
      case False
      with "1.prems"(2) have "i + 1 \<le> k" by simp
      from "1.IH" [OF im _ r this "1.prems"(3)] True show ?thesis by simp
    qed
  qed
qed

lemma slots_hold_init: "slots_hold init_state []"
  by (simp add: slots_hold_def init_state_def zero_device_def)

lemma slots_hold_same_keys:
  assumes "slots_hold s xs"
    and "\<And>k. k < MAX_DEVICES \<Longrightarrow>
           in_use (g_devices s' ! k) = in_use (g_devices s ! k) \<and>
           addr (g_devices s' ! k) = addr (g_devices s ! k)"
  shows "slots_hold s' xs"
  using assms by (simp add: slots_hold_def)

lemma take6_idem [simp]: "take 6 (take 6 a) = take 6 (a :: u8 list)"
  by simp

lemma gap_event_cb_slots_hold:
  assumes inv: "run_inv s" and dist: "distinct xs" and sh: "slots_hold s xs"
    and cb: "gap_event_cb s (BLE_GAP_EVENT_DISC desc) = Some (s', fx)"
  shows "slots_hold s'
           (if carries_field desc then add_new xs (take 6 (disc_addr desc)) else xs)"
proof -
  let ?a = "take 6 (disc_addr desc)"
  from inv have len: "length (g_devices s) = MAX_DEVICES"
    by (simp add: run_inv_def wf_state_def)
  from cb len show ?thesis
  proof (cases rule: gap_event_cb_DISC_slot)
    case ignored
    show ?thesis
    proof (cases "carries_field desc")
      case False
      with ignored(1) sh show ?thesis by simp
    next
      case True
      with ignored(3) have "alloc_loop (g_devices s) 0 = None" by simp
      then have all: "\<And>k. k < MAX_DEVICES \<Longrightarrow> in_use (g_devices s ! k)"
        using alloc_loop_None [of "g_devices s" 0] by simp
      with sh have long: "MAX_DEVICES \<le> length xs"
        by (auto simp: slots_hold_def not_le [symmetric])
      have "slots_hold s (add_new xs ?a)"
        using sh long by (auto simp: slots_hold_def add_new_def nth_append)
      with True ignored(1) show ?thesis by simp
    qed
  next
    case (stored j d0 X)
    from stored(1) len have jl: "j < length (g_devices s)" by simp
    with stored(4) have x: "g_devices s' ! j = X" by simp
    from stored(3) show ?thesis
    proof
      assume f: "find_loop (g_devices s) (disc_addr desc) 0 = Some j \<and> d0 = g_devices s ! j"
      from find_loop_Some [of "g_devices s" "disc_addr desc" 0 j] f
      have iu: "in_use (g_devices s ! j)" and m: "take 6 (addr (g_devices s ! j)) = ?a"
        by (simp_all add: memcmp6_def)
      from sh stored(1) iu have jx: "j < length xs"
        by (auto simp: slots_hold_def not_le [symmetric])
      with sh stored(1) m have "?a = xs ! j" by (auto simp: slots_hold_def)
      with jx have mem: "?a \<in> set xs" by simp
      have "slots_hold s' xs"
      proof (rule slots_hold_same_keys [OF sh])
        fix k assume "k < MAX_DEVICES"
        show "in_use (g_devices s' ! k) = in_use (g_devices s ! k) \<and>
              addr (g_devices s' ! k) = addr (g_devices s ! k)"
          using stored(4,11,12) f iu x by (cases "k = j") simp_all
      qed
      with mem stored(2) show ?thesis by (simp add: add_new_def)
    next
      assume n: "find_loop (g_devices s) (disc_addr desc) 0 = None \<and>
            alloc_loop (g_devices s) 0 = Some j \<and> \<not> in_use (g_devices s ! j) \<and>
            d0 = zero_device\<lparr>in_use := True, addr := take 6 (disc_addr desc)\<rparr>"
      have below: "in_use (g_devices s ! k)" if "k < j" for k
        using alloc_loop_least [of "g_devices s" 0 j k] n that by simp
      from sh stored(1) n have "length xs \<le> j"
        by (auto simp: slots_hold_def not_less [symmetric])
      moreover have "j \<le> length xs"
      proof (rule ccontr)
        assume "\<not> j \<le> length xs"
        then have lt: "length xs < j" by simp
        with stored(1) have "length xs < MAX_DEVICES" by simp
        with sh have "\<not> in_use (g_devices s ! length xs)" by (simp add: slots_hold_def)
        with below [OF lt] show False by simp
      qed
      ultimately have lx: "length xs = j" by simp
      have new: "?a \<notin> set xs"
      proof
        assume "?a \<in> set xs"
        then obtain k where k: "k < length xs" "xs ! k = ?a" by (auto simp: in_set_conv_nth)
        with lx stored(1) have km: "k < MAX_DEVICES" by simp
        with sh k have "in_use (g_devices s ! k)" "take 6 (addr (g_devices s ! k)) = ?a"
          by (auto simp: slots_hold_def)
        with find_loop_None [of "g_devices s" "disc_addr desc" 0 k] n km show False
          by (simp add: memcmp6_def)
      qed
      have "slots_hold s' (xs @ [?a])"
        unfolding slots_hold_def
      proof (intro allI impI conjI)
        fix k assume km: "k < MAX_DEVICES" and kl: "k < length (xs @ [?a])"
        show "in_use (g_devices s' ! k)"
          using sh km kl lx stored(4,11) x by (cases "k = j") (auto simp: slots_hold_def)
        show "take 6 (addr (g_devices s' ! k)) = (xs @ [?a]) ! k"
          using sh km kl lx stored(4,12) x n
          by (cases "k = j") (auto simp: slots_hold_def nth_append)
      next
        fix k assume km: "k < MAX_DEVICES" and kl: "length (xs @ [?a]) \<le> k"
        with lx have "k \<noteq> j" "length xs \<le> k" by simp_all
        with sh km stored(4) show "\<not> in_use (g_devices s' ! k)"
          by (simp add: slots_hold_def)
      qed
      with new stored(2) show ?thesis by (simp add: add_new_def)
    qed
  qed
qed

lemma step_slots_hold:
  assumes inv: "run_inv s" and dist: "distinct xs" and sh: "slots_hold s xs"
    and st: "step s a = Some s'"
  shows "slots_hold s' (foldl add_new xs (ingested_addrs [a]))"
proof (cases a)
  case (Call nvs1 nvs2 req)
  from inv have len: "length (g_devices s) = MAX_DEVICES"
    by (simp add: run_inv_def wf_state_def)
  from Call st have "s' = fst (snd (handle_call s nvs1 nvs2 req))" by (simp add: step_def)
  with handle_call_keys [OF _ len, of _ nvs1 nvs2 req] slots_hold_same_keys [OF sh, of s'] Call
  show ?thesis by simp
next
  case (Event ev)
  with st obtain fx where cb: "gap_event_cb s ev = Some (s', fx)"
    by (auto simp: step_def)
  show ?thesis
  proof (cases ev)
    case BLE_GAP_EVENT_DISC_COMPLETE
    with cb Event sh show ?thesis by (simp add: gap_event_cb_def)
  next
    case BLE_GAP_EVENT_OTHER
    with cb Event sh show ?thesis by (simp add: gap_event_cb_def)
  next
    case (BLE_GAP_EVENT_DISC desc)
    with cb have "gap_event_cb s (BLE_GAP_EVENT_DISC desc) = Some (s', fx)" by simp
    from gap_event_cb_slots_hold [OF inv dist sh this] Event BLE_GAP_EVENT_DISC
    show ?thesis by (cases "carries_field desc") simp_all
  qed
qed

lemma run_slots_hold:
  assumes "run_inv s" and "distinct xs" and "slots_hold s xs" and "run s acts = Some s'"
  shows "slots_hold s' (foldl add_new xs (ingested_addrs acts))"
  using assms
proof (induction acts arbitrary: s xs)
  case Nil
  then show ?case by simp
next
  case (Cons a acts)
  from Cons.prems(4) obtain s1 where st: "step s a = Some s1" and r: "run s1 acts = Some s'"
    by (auto split: option.splits)
  note inv1 = step_inv [OF Cons.prems(1) st]
  note sh1 = step_slots_hold [OF Cons.prems(1,2,3) st]
  note d1 = foldl_add_new_distinct [OF Cons.prems(2), of "ingested_addrs [a]"]
  from Cons.IH [OF inv1 d1 sh1 r] show ?case
    by (subst ingested_addrs_Cons) simp
qed

lemma reachable_slots_hold:
  "run init_state acts = Some s \<Longrightarrow> slots_hold s (first_seen (ingested_addrs acts))"
  using run_slots_hold [OF run_inv_init _ slots_hold_init, of acts s]
  by (simp add: first_seen_def)

text \<open>An address is found at the slot that holds it.\<close>

lemma slots_hold_find:
  assumes sh: "slots_hold s xs" and dist: "distinct xs"
    and k: "k < MAX_DEVICES" "k < length xs"
  shows "find_loop (g_devices s) (xs ! k) 0 = Some k"
proof (rule find_loop_first)
  show "0 \<le> k" by simp
  show "k < MAX_DEVICES" by (rule k(1))
  from sh k show "in_use (g_devices s ! k)" by (simp add: slots_hold_def)
  from sh k have e: "take 6 (addr (g_devices s ! k)) = xs ! k" by (simp add: slots_hold_def)
  then have "take 6 (xs ! k) = xs ! k" by (metis take6_idem)
  with e show "memcmp6 (addr (g_devices s ! k)) (xs ! k)" by (simp add: memcmp6_def)
  fix i assume "0 \<le> i" and ik: "i < k"
  with sh k have ei: "take 6 (addr (g_devices s ! i)) = xs ! i" by (simp add: slots_hold_def)
  from dist ik k have "xs ! i \<noteq> xs ! k" by (simp add: nth_eq_iff_index_eq)
  with ei \<open>take 6 (xs ! k) = xs ! k\<close>
  show "\<not> (in_use (g_devices s ! i) \<and> memcmp6 (addr (g_devices s ! i)) (xs ! k))"
    by (simp add: memcmp6_def)
qed

text \<open>
  C6. Start from the empty registry and let a run ingest events that carry a field for
  twelve different addresses or more. Then every slot is in use: slot \<open>k\<close> holds the
  \<open>k\<close>-th of the different addresses in the order they were first ingested, and that
  address is found at slot \<open>k\<close>. An address has no slot exactly when it is not among
  those first twelve, and a discovery event for such an address is dropped: the callback
  returns, and the whole state (every record, the latest-valid index, the started flag)
  is what it was, with nothing logged. An event that carries a field for an address
  that has a slot still sets the rssi of that slot, which stays the slot of that
  address, and leaves every other slot alone.
\<close>

theorem capacity_bound:
  assumes "run init_state acts = Some s"
    and "MAX_DEVICES \<le> card (set (ingested_addrs acts))"
    and "wf_desc desc"
  shows "(\<forall>k < MAX_DEVICES.
            in_use (g_devices s ! k)
            \<and> take 6 (addr (g_devices s ! k)) = first_seen (ingested_addrs acts) ! k
            \<and> find_loop (g_devices s) (first_seen (ingested_addrs acts) ! k) 0 = Some k)
         \<and> (find_loop (g_devices s) (disc_addr desc) 0 = None
              \<longleftrightarrow> take 6 (disc_addr desc)
                    \<notin> set (take MAX_DEVICES (first_seen (ingested_addrs acts))))
         \<and> (find_loop (g_devices s) (disc_addr desc) 0 = None
              \<longrightarrow> gap_event_cb s (BLE_GAP_EVENT_DISC desc) = Some (s, []))
         \<and> (\<forall>j. find_loop (g_devices s) (disc_addr desc) 0 = Some j \<and> carries_field desc
              \<longrightarrow> (\<exists>s' fx. gap_event_cb s (BLE_GAP_EVENT_DISC desc) = Some (s', fx)
                      \<and> rssi (g_devices s' ! j) = disc_rssi desc
                      \<and> find_loop (g_devices s') (disc_addr desc) 0 = Some j
                      \<and> (\<forall>k < MAX_DEVICES. k \<noteq> j \<longrightarrow> g_devices s' ! k = g_devices s ! k)))"
proof -
  let ?xs = "first_seen (ingested_addrs acts)"
  let ?a = "disc_addr desc"
  note inv = run_inv_reachable [OF assms(1)]
  then have wf: "wf_state s" by (simp add: run_inv_def)
  then have len: "length (g_devices s) = MAX_DEVICES" by (simp add: wf_state_def)
  note sh = reachable_slots_hold [OF assms(1)]
  note dist = first_seen_distinct [of "ingested_addrs acts"]
  from assms(2) have long: "MAX_DEVICES \<le> length ?xs" by (simp add: first_seen_length)
  have slot: "in_use (g_devices s ! k)
            \<and> take 6 (addr (g_devices s ! k)) = ?xs ! k
            \<and> find_loop (g_devices s) (?xs ! k) 0 = Some k" if "k < MAX_DEVICES" for k
  proof -
    from that long have kl: "k < length ?xs" by simp
    with sh that slots_hold_find [OF sh dist that kl] show ?thesis
      by (simp add: slots_hold_def)
  qed
  have unseen: "find_loop (g_devices s) ?a 0 = None
                  \<longleftrightarrow> take 6 ?a \<notin> set (take MAX_DEVICES ?xs)"
  proof (cases "find_loop (g_devices s) ?a 0")
    case None
    have "take 6 ?a \<notin> set (take MAX_DEVICES ?xs)"
    proof
      assume "take 6 ?a \<in> set (take MAX_DEVICES ?xs)"
      then obtain k where k: "k < MAX_DEVICES" "?xs ! k = take 6 ?a"
        using long by (auto simp: in_set_conv_nth)
      with slot [OF k(1)] have "in_use (g_devices s ! k)"
        "memcmp6 (addr (g_devices s ! k)) ?a"
        by (simp_all add: memcmp6_def)
      with find_loop_None [OF None, of k] k(1) show False by simp
    qed
    with None show ?thesis by simp
  next
    case (Some j)
    from find_loop_Some [OF Some] have j: "j < MAX_DEVICES"
      and m: "take 6 (addr (g_devices s ! j)) = take 6 ?a"
      by (simp_all add: memcmp6_def)
    from slot [OF j] m have "?xs ! j = take 6 ?a" by simp
    with j long have "take 6 ?a \<in> set (take MAX_DEVICES ?xs)"
      by (auto simp: in_set_conv_nth intro!: exI [of _ j])
    with Some show ?thesis by simp
  qed
  from gap_event_cb_total [OF wf assms(3)]
  obtain s' fx where cb: "gap_event_cb s (BLE_GAP_EVENT_DISC desc) = Some (s', fx)"
    by blast
  have full: "alloc_loop (g_devices s) 0 = None"
    using slot by (intro alloc_loop_full) simp
  have events: "(find_loop (g_devices s) ?a 0 = None
              \<longrightarrow> gap_event_cb s (BLE_GAP_EVENT_DISC desc) = Some (s, []))
         \<and> (\<forall>j. find_loop (g_devices s) ?a 0 = Some j \<and> carries_field desc
              \<longrightarrow> (\<exists>s' fx. gap_event_cb s (BLE_GAP_EVENT_DISC desc) = Some (s', fx)
                      \<and> rssi (g_devices s' ! j) = disc_rssi desc
                      \<and> find_loop (g_devices s') ?a 0 = Some j
                      \<and> (\<forall>k < MAX_DEVICES. k \<noteq> j \<longrightarrow> g_devices s' ! k = g_devices s ! k)))"
    using cb len
  proof (cases rule: gap_event_cb_DISC_slot)
    case ignored
    with cb show ?thesis by auto
  next
    case (stored j d0 X)
    from stored(3) full have f: "find_loop (g_devices s) ?a 0 = Some j"
      by auto
    from stored(1) len have "j < length (g_devices s)" by simp
    with stored(4,6) have "rssi (g_devices s' ! j) = disc_rssi desc"
      and "\<forall>k < MAX_DEVICES. k \<noteq> j \<longrightarrow> g_devices s' ! k = g_devices s ! k"
      by simp_all
    with cb f stored(5) show ?thesis by auto
  qed
  from slot unseen events show ?thesis by blast
qed

lemma twelve_events_full:
  "run init_state twelve_events \<noteq> None
   \<and> MAX_DEVICES \<le> card (set (ingested_addrs twelve_events))"
  by code_simp

theorem capacity_bound_witness:
  "(\<exists>s. run init_state twelve_events = Some s
      \<and> MAX_DEVICES \<le> card (set (ingested_addrs twelve_events))
      \<and> in_use (g_devices s ! 11)
      \<and> find_loop (g_devices s) addr_M 0 = None
      \<and> gap_event_cb s (disc addr_M 0xC6 adv_full) = Some (s, [])
      \<and> find_loop (g_devices s) addr_3 0 = Some 3
      \<and> rssi (g_devices s ! 3) = 0xC4
      \<and> (\<exists>s' fx. gap_event_cb s (disc addr_3 0xC6 adv_svc) = Some (s', fx)
            \<and> rssi (g_devices s' ! 3) = 0xC6
            \<and> find_loop (g_devices s') addr_3 0 = Some 3
            \<and> (\<forall>k < MAX_DEVICES. k \<noteq> 3 \<longrightarrow> g_devices s' ! k = g_devices s ! k)))"
proof -
  from twelve_events_full obtain s where r: "run init_state twelve_events = Some s"
    and c: "MAX_DEVICES \<le> card (set (ingested_addrs twelve_events))"
    by auto
  let ?dM = "\<lparr>disc_addr = addr_M, disc_rssi = 0xC6, disc_data = adv_full,
              disc_length_data = of_nat (length adv_full)\<rparr>"
  let ?d3 = "\<lparr>disc_addr = addr_3, disc_rssi = 0xC6, disc_data = adv_svc,
              disc_length_data = of_nat (length adv_svc)\<rparr>"
  have w: "wf_desc ?dM" "wf_desc ?d3"
    by (simp_all add: wf_desc_def adv_full_def adv_svc_def)
  have cf: "carries_field ?d3" by code_simp
  have "map_option (\<lambda>s. (find_loop (g_devices s) addr_M 0, find_loop (g_devices s) addr_3 0,
            rssi (g_devices s ! 3)))
          (run init_state twelve_events)
          = Some (None, Some 3, 0xC4)"
    by code_simp
  with r have n: "find_loop (g_devices s) addr_M 0 = None"
    and f: "find_loop (g_devices s) addr_3 0 = Some 3"
    and old: "rssi (g_devices s ! 3) = 0xC4"
    by simp_all
  have k: "(11 :: nat) < MAX_DEVICES" by (simp add: MAX_DEVICES_def)
  note cM = capacity_bound [OF r c w(1)]
  from cM k have used: "in_use (g_devices s ! 11)" by blast
  from cM n have dropped: "gap_event_cb s (disc addr_M 0xC6 adv_full) = Some (s, [])"
    by (simp add: disc_def)
  from capacity_bound [OF r c w(2)] f cf
  have "\<exists>s' fx. gap_event_cb s (BLE_GAP_EVENT_DISC ?d3) = Some (s', fx)
            \<and> rssi (g_devices s' ! 3) = disc_rssi ?d3
            \<and> find_loop (g_devices s') (disc_addr ?d3) 0 = Some 3
            \<and> (\<forall>k < MAX_DEVICES. k \<noteq> 3 \<longrightarrow> g_devices s' ! k = g_devices s ! k)"
    by simp
  then have seen: "\<exists>s' fx. gap_event_cb s (disc addr_3 0xC6 adv_svc) = Some (s', fx)
            \<and> rssi (g_devices s' ! 3) = 0xC6
            \<and> find_loop (g_devices s') addr_3 0 = Some 3
            \<and> (\<forall>k < MAX_DEVICES. k \<noteq> 3 \<longrightarrow> g_devices s' ! k = g_devices s ! k)"
    by (simp add: disc_def)
  from r c used n dropped f old seen show ?thesis by blast
qed

end
